theory Spec2Isabelle
  imports Main "HOL-Library.Word"
begin

unbundle bit_operations_syntax

section \<open>Bit utilities (bit\_utils.hpp)\<close>

text \<open>
  \<^verbatim>\<open>std::size_t\<close> is a 64-bit word, \<^verbatim>\<open>int\<close> a 32-bit word read in two's complement.
  A result of \<open>None\<close> stands for a program without a value: undefined behaviour at run
  time, or a template instantiation that the compiler rejects.
\<close>

definition is_power_of_two :: "'a::len word \<Rightarrow> bool" where
  "is_power_of_two number \<longleftrightarrow> number \<noteq> 0 \<and> number AND (number - 1) = 0"

definition SIZE_MAX :: "64 word" where
  "SIZE_MAX = 0xFFFFFFFFFFFFFFFF"

definition MAX_POWER :: "64 word" where
  "MAX_POWER = SIZE_MAX - drop_bit 1 SIZE_MAX"

text \<open>
  The expression \<^verbatim>\<open>1 << current_bit\<close>: the literal \<^verbatim>\<open>1\<close> is an \<^verbatim>\<open>int\<close>, so the shift is a
  32-bit shift whatever the type of the count. Counts of 32 and more are undefined;
  a count of 31 yields the sign bit alone.
\<close>

definition shl_int :: "32 word \<Rightarrow> 64 word \<Rightarrow> 32 word option" where
  "shl_int a n = (if n < 32 then Some (push_bit (unat n) a) else None)"

text \<open>
  The \<^verbatim>\<open>int\<close> result of the shift initialises a \<^verbatim>\<open>std::size_t\<close>: the conversion extends
  the sign (\<open>scast\<close>).
\<close>

function ceil_to_power_of_two :: "64 word \<Rightarrow> 64 word \<Rightarrow> 64 word option" where
  "ceil_to_power_of_two original current_bit =
     (if original > MAX_POWER then Some MAX_POWER
      else case shl_int 1 current_bit of
        None \<Rightarrow> None
      | Some p \<Rightarrow>
          (let current_power = (scast p :: 64 word) in
           if current_power \<ge> original \<or> current_bit = MAX_POWER then Some current_power
           else ceil_to_power_of_two original (current_bit + 1)))"
  by pat_completeness auto
termination
proof (relation "measure (\<lambda>(original, current_bit). 32 - unat current_bit)")
  show "wf (measure (\<lambda>(original, current_bit). 32 - unat current_bit))" by simp
next
  fix original current_bit :: "64 word" and p x
  assume "shl_int 1 current_bit = Some p"
  then have "current_bit < 32" by (simp add: shl_int_def split: if_splits)
  then have lt: "unat current_bit < 32" by (simp add: word_less_nat_alt)
  then have "unat (current_bit + 1) = unat current_bit + 1"
    by (simp add: unat_word_ariths)
  with lt show "((original, current_bit + 1), original, current_bit)
       \<in> measure (\<lambda>(original, current_bit). 32 - unat current_bit)"
    by simp
qed

declare ceil_to_power_of_two.simps [simp del]

definition INT_MIN :: "32 word" where
  "INT_MIN = 0x80000000"

text \<open>
  \<^verbatim>\<open>template <int DIVISOR> int mod_power_of_two(const int dividend)\<close>. The
  \<^verbatim>\<open>static_assert\<close> evaluates \<^verbatim>\<open>is_power_of_two(DIVISOR)\<close> on an \<^verbatim>\<open>int\<close>; for \<^verbatim>\<open>INT_MIN\<close> the
  subtraction overflows inside the constant expression, for every other value that is
  not a power of two the assertion fails. Both leave no instantiation.
\<close>

definition mod_power_of_two :: "32 word \<Rightarrow> 32 word \<Rightarrow> 32 word option" where
  "mod_power_of_two DIVISOR dividend =
     (if DIVISOR \<noteq> INT_MIN \<and> is_power_of_two DIVISOR
      then Some (dividend AND (DIVISOR - 1)) else None)"

section \<open>The queue type (disruptor\_queue.hpp)\<close>

text \<open>
  \<^verbatim>\<open>sequence_type\<close> is \<^verbatim>\<open>int64_t\<close>. Its values are modelled as integers between
  \<open>- 2 ^ 63\<close> and \<open>2 ^ 63 - 1\<close>, and every arithmetic result is brought back into that
  range by \<open>wrap64\<close>.
\<close>

definition wrap64 :: "int \<Rightarrow> int" where
  "wrap64 x = sint (word_of_int x :: 64 word)"

definition INITIAL_SEQUENCE :: int where
  "INITIAL_SEQUENCE = - 1"

definition SEQUENCE_MAX :: int where
  "SEQUENCE_MAX = 9223372036854775807"

text \<open>
  The header file holds three revisions of the class, one after the other: lines 1 to
  253, lines 254 to 553 and lines 554 to 749. This development follows the second.
  The first differs from it in \<^verbatim>\<open>reader::read\<close>, the third in the whole protocol; what
  they do differently is modelled under names that end in \<open>_r1\<close> and \<open>_r3\<close>.
\<close>

text \<open>
  The two class-level assertions on the capacity (revisions 1 and 2); the third
  assertion of the class is about the payload type.
\<close>

definition static_asserts :: "64 word \<Rightarrow> bool" where
  "static_asserts CAPACITY \<longleftrightarrow> CAPACITY > 0 \<and> is_power_of_two CAPACITY"

text \<open>
  The class holds the members \<^verbatim>\<open>std::array<value_type, CAPACITY> _buffer\<close> and
  \<^verbatim>\<open>std::array<std::atomic<sequence_type>, CAPACITY> _slot_sequences\<close>, so the type
  exists only when an object with these two arrays can: their bytes together must not
  exceed the largest object size of the implementation. That size (at most
  \<^verbatim>\<open>PTRDIFF_MAX\<close>) and \<^verbatim>\<open>sizeof(value_type)\<close> are parameters; an atomic sequence takes 8
  bytes.
\<close>

definition PTRDIFF_MAX :: nat where
  "PTRDIFF_MAX = 9223372036854775807"

definition members_fit :: "nat \<Rightarrow> nat \<Rightarrow> 64 word \<Rightarrow> bool" where
  "members_fit max_object_size sizeof_T CAPACITY \<longleftrightarrow>
     sizeof_T * unat CAPACITY + 8 * unat CAPACITY \<le> max_object_size"

text \<open>
  \<^verbatim>\<open>capacity()\<close> of the instantiated type: \<open>None\<close> when an assertion fails or the members
  do not fit, and the type does not exist.
\<close>

definition capacity :: "nat \<Rightarrow> nat \<Rightarrow> 64 word \<Rightarrow> 64 word option" where
  "capacity max_object_size sizeof_T CAPACITY =
     (if static_asserts CAPACITY \<and> members_fit max_object_size sizeof_T CAPACITY
      then Some CAPACITY else None)"

text \<open>
  Revision 3 (lines 554 to 749) has the template parameter \<^verbatim>\<open>SIZE\<close> and no assertion on
  it. Its capacity is the constant \<^verbatim>\<open>CAPACITY = internal::ceil_to_power_of_two(SIZE)\<close>,
  which \<^verbatim>\<open>capacity()\<close> returns; the buffer of \<^verbatim>\<open>CAPACITY\<close> elements is its only array.
\<close>

definition CAPACITY_r3 :: "64 word \<Rightarrow> 64 word option" where
  "CAPACITY_r3 SIZE = ceil_to_power_of_two SIZE 0"

definition members_fit_r3 :: "nat \<Rightarrow> nat \<Rightarrow> 64 word \<Rightarrow> bool" where
  "members_fit_r3 max_object_size sizeof_T CAPACITY \<longleftrightarrow>
     sizeof_T * unat CAPACITY \<le> max_object_size"

definition capacity_r3 :: "nat \<Rightarrow> nat \<Rightarrow> 64 word \<Rightarrow> 64 word option" where
  "capacity_r3 max_object_size sizeof_T SIZE =
     (case CAPACITY_r3 SIZE of
        None \<Rightarrow> None
      | Some c \<Rightarrow> if members_fit_r3 max_object_size sizeof_T c then Some c else None)"

text \<open>
  \<^verbatim>\<open>index_from_sequence\<close> passes the \<^verbatim>\<open>std::size_t\<close> capacity as the \<^verbatim>\<open>int\<close> template
  argument of \<^verbatim>\<open>mod_power_of_two\<close>: a capacity above \<^verbatim>\<open>INT_MAX\<close> would have to be
  narrowed, which a template argument does not allow. The 64-bit sequence is narrowed
  to the \<^verbatim>\<open>int\<close> parameter (its low 32 bits), and the \<^verbatim>\<open>int\<close> result is converted to
  \<^verbatim>\<open>size_type\<close>.
\<close>

definition index_from_sequence :: "64 word \<Rightarrow> int \<Rightarrow> nat option" where
  "index_from_sequence CAPACITY sequence =
     (if CAPACITY \<le> 0x7FFFFFFF
      then map_option (\<lambda>i. unat (scast i :: 64 word))
             (mod_power_of_two (ucast CAPACITY) (word_of_int sequence))
      else None)"

subsection \<open>Endpoints and queue state\<close>

text \<open>
  Producers and consumers run on their own threads. An execution is modelled as an
  interleaving of atomic steps under sequential consistency: each step is one access to
  shared memory together with the thread-local computation around it. The program
  counters below name the points between two shared accesses.

  Reader: \<open>R_idle\<close> (no call in progress), \<open>R_wait\<close> (inside \<^verbatim>\<open>wait_for_data\<close>),
  \<open>R_copy\<close> (stamp matched, payload not yet copied), \<open>R_update\<close> (payload copied,
  \<^verbatim>\<open>_consumer_sequence\<close> not yet stored).

  Writer: \<open>W_idle\<close>, \<open>W_wait\<close> (sequence claimed, at the test of \<^verbatim>\<open>wait_for_no_wrap\<close>),
  \<open>W_load j\<close> (inside \<^verbatim>\<open>get_min_consumer_sequence\<close>, about to load the sequence of
  reader \<open>j\<close>), \<open>W_store\<close> (about to assign the payload), \<open>W_commit\<close> (payload assigned,
  stamp not yet stored).
\<close>

datatype reader_pc = R_idle | R_wait | R_copy | R_update

datatype writer_pc = W_idle | W_wait | W_load nat | W_store | W_commit

text \<open>
  Besides the members of the class, an endpoint record holds the locals of the call in
  progress: \<open>next_read_sequence\<close>, \<open>read_index\<close> and \<open>rvalue\<close> (the local \<^verbatim>\<open>value\<close> that
  \<^verbatim>\<open>read()\<close> returns, or the destination \<^verbatim>\<open>output\<close> of \<^verbatim>\<open>read(output)\<close>) for a reader;
  \<open>wvalue\<close> (the argument), \<open>claimed_sequence\<close>, \<open>write_index\<close> and \<open>min_sequence\<close> for a
  writer. A local is assigned in every call before it is read.
\<close>

record 'a reader =
  consumer_sequence :: int
  rpc :: reader_pc
  next_read_sequence :: int
  read_index :: nat
  rvalue :: 'a

record 'a writer =
  cached_min_consumer_sequence :: int
  wpc :: writer_pc
  wvalue :: 'a
  claimed_sequence :: int
  write_index :: nat
  min_sequence :: int

record 'a disruptor_queue =
  buffer :: "'a list"
  slot_sequences :: "int list"
  next_sequence :: int
  readers :: "'a reader list"
  writers :: "'a writer list"

text \<open>
  The constructor value-initialises the buffer (\<open>dflt\<close> stands for \<^verbatim>\<open>T{}\<close>) and stores
  \<^verbatim>\<open>INITIAL_SEQUENCE\<close> in every slot sequence. \<^verbatim>\<open>create_reader\<close> and \<^verbatim>\<open>create_writer\<close>
  append an endpoint; the header allows them during setup only, so an execution starts
  from \<open>setup_queue\<close>: the constructed queue with \<open>nr\<close> readers and \<open>nw\<close> writers.
\<close>

definition new_queue :: "64 word \<Rightarrow> 'a \<Rightarrow> 'a disruptor_queue" where
  "new_queue CAPACITY dflt =
     \<lparr>buffer = replicate (unat CAPACITY) dflt,
      slot_sequences = replicate (unat CAPACITY) INITIAL_SEQUENCE,
      next_sequence = 0, readers = [], writers = []\<rparr>"

definition new_reader :: "'a \<Rightarrow> 'a reader" where
  "new_reader dflt =
     \<lparr>consumer_sequence = INITIAL_SEQUENCE, rpc = R_idle, next_read_sequence = 0,
      read_index = 0, rvalue = dflt\<rparr>"

definition new_writer :: "'a \<Rightarrow> 'a writer" where
  "new_writer dflt =
     \<lparr>cached_min_consumer_sequence = INITIAL_SEQUENCE, wpc = W_idle, wvalue = dflt,
      claimed_sequence = 0, write_index = 0, min_sequence = 0\<rparr>"

definition create_reader :: "'a \<Rightarrow> 'a disruptor_queue \<Rightarrow> 'a disruptor_queue" where
  "create_reader dflt q = q\<lparr>readers := readers q @ [new_reader dflt]\<rparr>"

definition create_writer :: "'a \<Rightarrow> 'a disruptor_queue \<Rightarrow> 'a disruptor_queue" where
  "create_writer dflt q = q\<lparr>writers := writers q @ [new_writer dflt]\<rparr>"

definition setup_queue :: "64 word \<Rightarrow> 'a \<Rightarrow> nat \<Rightarrow> nat \<Rightarrow> 'a disruptor_queue" where
  "setup_queue CAPACITY dflt nr nw =
     ((create_writer dflt) ^^ nw) (((create_reader dflt) ^^ nr) (new_queue CAPACITY dflt))"

definition get_min_consumer_sequence :: "'a disruptor_queue \<Rightarrow> int" where
  "get_min_consumer_sequence q =
     (if readers q = [] then SEQUENCE_MAX
      else foldl (\<lambda>m r. min m (consumer_sequence r)) SEQUENCE_MAX (readers q))"

subsection \<open>Atomic steps\<close>

definition set_writer :: "nat \<Rightarrow> 'a writer \<Rightarrow> 'a disruptor_queue \<Rightarrow> 'a disruptor_queue" where
  "set_writer w x q = q\<lparr>writers := (writers q)[w := x]\<rparr>"

definition set_reader :: "nat \<Rightarrow> 'a reader \<Rightarrow> 'a disruptor_queue \<Rightarrow> 'a disruptor_queue" where
  "set_reader r x q = q\<lparr>readers := (readers q)[r := x]\<rparr>"

text \<open>
  \<^verbatim>\<open>writer::write(value)\<close> and \<^verbatim>\<open>write_emplace\<close> (with \<open>v\<close> the constructed value) begin with
  \<^verbatim>\<open>claim_sequence\<close>: the \<^verbatim>\<open>fetch_add\<close> on \<^verbatim>\<open>_next_sequence\<close>. The atomic addition wraps.
\<close>

definition fetch_add :: "nat \<Rightarrow> 'a \<Rightarrow> 'a disruptor_queue \<Rightarrow> 'a disruptor_queue option" where
  "fetch_add w v q =
     (if w < length (writers q) \<and> wpc (writers q ! w) = W_idle
      then Some (set_writer w
             ((writers q ! w)\<lparr>wpc := W_wait, wvalue := v, claimed_sequence := next_sequence q\<rparr>)
             (q\<lparr>next_sequence := wrap64 (next_sequence q + 1)\<rparr>))
      else None)"

text \<open>
  \<^verbatim>\<open>wait_for_no_wrap\<close>: the early return and the loop test are the same comparison on
  the cached minimum. When it holds the call returns, \<^verbatim>\<open>write\<close> computes \<^verbatim>\<open>write_index\<close>
  and goes on to the payload. Otherwise \<^verbatim>\<open>get_min_consumer_sequence\<close> is entered: with
  no readers it returns the maximum at once, else it starts the scan of the readers.
\<close>

definition wait_for_no_wrap :: "64 word \<Rightarrow> nat \<Rightarrow> 'a disruptor_queue \<Rightarrow> 'a disruptor_queue option" where
  "wait_for_no_wrap CAPACITY w q =
     (if w < length (writers q) \<and> wpc (writers q ! w) = W_wait
      then
        if wrap64 (claimed_sequence (writers q ! w) - sint CAPACITY)
             \<le> cached_min_consumer_sequence (writers q ! w)
        then
          (case index_from_sequence CAPACITY (claimed_sequence (writers q ! w)) of
             None \<Rightarrow> None
           | Some i \<Rightarrow> Some (set_writer w ((writers q ! w)\<lparr>wpc := W_store, write_index := i\<rparr>) q))
        else if readers q = []
        then Some (set_writer w
               ((writers q ! w)\<lparr>cached_min_consumer_sequence := SEQUENCE_MAX\<rparr>) q)
        else Some (set_writer w
               ((writers q ! w)\<lparr>wpc := W_load 0, min_sequence := SEQUENCE_MAX\<rparr>) q)
      else None)"

text \<open>
  One iteration of the loop of \<^verbatim>\<open>get_min_consumer_sequence\<close>: an acquire load of one
  reader's sequence. After the last reader the result becomes the cached minimum and
  control is back at the test of \<^verbatim>\<open>wait_for_no_wrap\<close>.
\<close>

definition load_consumer_sequence :: "nat \<Rightarrow> 'a disruptor_queue \<Rightarrow> 'a disruptor_queue option" where
  "load_consumer_sequence w q =
     (if w < length (writers q)
      then
        (case wpc (writers q ! w) of
           W_load j \<Rightarrow>
             if j < length (readers q)
             then
               if Suc j < length (readers q)
               then Some (set_writer w
                      ((writers q ! w)\<lparr>wpc := W_load (Suc j),
                         min_sequence := min (min_sequence (writers q ! w))
                                             (consumer_sequence (readers q ! j))\<rparr>) q)
               else Some (set_writer w
                      ((writers q ! w)\<lparr>wpc := W_wait,
                         cached_min_consumer_sequence :=
                           min (min_sequence (writers q ! w))
                               (consumer_sequence (readers q ! j))\<rparr>) q)
             else None
         | _ \<Rightarrow> None)
      else None)"

text \<open>
  The assignment \<^verbatim>\<open>_buffer[write_index] = std::move(value)\<close> and the release store of
  \<^verbatim>\<open>commit_sequence\<close>. An index outside the array has no defined behaviour.
\<close>

definition store_payload :: "nat \<Rightarrow> 'a disruptor_queue \<Rightarrow> 'a disruptor_queue option" where
  "store_payload w q =
     (if w < length (writers q) \<and> wpc (writers q ! w) = W_store
         \<and> write_index (writers q ! w) < length (buffer q)
      then Some (set_writer w ((writers q ! w)\<lparr>wpc := W_commit\<rparr>)
             (q\<lparr>buffer := (buffer q)[write_index (writers q ! w) := wvalue (writers q ! w)]\<rparr>))
      else None)"

definition commit_sequence :: "nat \<Rightarrow> 'a disruptor_queue \<Rightarrow> 'a disruptor_queue option" where
  "commit_sequence w q =
     (if w < length (writers q) \<and> wpc (writers q ! w) = W_commit
         \<and> write_index (writers q ! w) < length (slot_sequences q)
      then Some (set_writer w ((writers q ! w)\<lparr>wpc := W_idle\<rparr>)
             (q\<lparr>slot_sequences :=
                  (slot_sequences q)[write_index (writers q ! w) := claimed_sequence (writers q ! w)]\<rparr>))
      else None)"

text \<open>
  \<^verbatim>\<open>reader::read()\<close> is started with \<open>dest = None\<close>, \<^verbatim>\<open>reader::read(output)\<close> with
  \<open>dest = Some d\<close> where \<open>d\<close> is what the destination holds before the call. Both
  overloads then run the same four steps.
\<close>

definition get_next_read_sequence :: "64 word \<Rightarrow> nat \<Rightarrow> 'a option \<Rightarrow> 'a disruptor_queue \<Rightarrow> 'a disruptor_queue option" where
  "get_next_read_sequence CAPACITY r dest q =
     (if r < length (readers q) \<and> rpc (readers q ! r) = R_idle
      then
        (case index_from_sequence CAPACITY (wrap64 (consumer_sequence (readers q ! r) + 1)) of
           None \<Rightarrow> None
         | Some i \<Rightarrow>
             Some (set_reader r
               ((readers q ! r)\<lparr>rpc := R_wait,
                  next_read_sequence := wrap64 (consumer_sequence (readers q ! r) + 1),
                  read_index := i,
                  rvalue := (case dest of None \<Rightarrow> rvalue (readers q ! r) | Some d \<Rightarrow> d)\<rparr>) q))
      else None)"

definition wait_for_data :: "nat \<Rightarrow> 'a disruptor_queue \<Rightarrow> 'a disruptor_queue option" where
  "wait_for_data r q =
     (if r < length (readers q) \<and> rpc (readers q ! r) = R_wait
         \<and> read_index (readers q ! r) < length (slot_sequences q)
      then
        if slot_sequences q ! read_index (readers q ! r) \<noteq> next_read_sequence (readers q ! r)
        then Some q
        else Some (set_reader r ((readers q ! r)\<lparr>rpc := R_copy\<rparr>) q)
      else None)"

definition copy_payload :: "nat \<Rightarrow> 'a disruptor_queue \<Rightarrow> 'a disruptor_queue option" where
  "copy_payload r q =
     (if r < length (readers q) \<and> rpc (readers q ! r) = R_copy
         \<and> read_index (readers q ! r) < length (buffer q)
      then Some (set_reader r
             ((readers q ! r)\<lparr>rpc := R_update, rvalue := buffer q ! read_index (readers q ! r)\<rparr>) q)
      else None)"

definition update_consumer_sequence :: "nat \<Rightarrow> 'a disruptor_queue \<Rightarrow> 'a disruptor_queue option" where
  "update_consumer_sequence r q =
     (if r < length (readers q) \<and> rpc (readers q ! r) = R_update
      then Some (set_reader r
             ((readers q ! r)\<lparr>rpc := R_idle,
                consumer_sequence := next_read_sequence (readers q ! r)\<rparr>) q)
      else None)"

subsection \<open>Executions\<close>

text \<open>
  An event names the thread that moves and the step it takes; \<open>step\<close> is \<open>None\<close> when the
  thread is not at that step. \<open>run\<close> executes a schedule from a state.
\<close>

datatype 'a event =
    WriteCall nat 'a
  | WWait nat
  | WLoad nat
  | WStore nat
  | WCommit nat
  | ReadCall nat
  | ReadIntoCall nat 'a
  | RWait nat
  | RCopy nat
  | RUpdate nat

fun step :: "64 word \<Rightarrow> 'a event \<Rightarrow> 'a disruptor_queue \<Rightarrow> 'a disruptor_queue option" where
  "step CAPACITY (WriteCall w v) q = fetch_add w v q"
| "step CAPACITY (WWait w) q = wait_for_no_wrap CAPACITY w q"
| "step CAPACITY (WLoad w) q = load_consumer_sequence w q"
| "step CAPACITY (WStore w) q = store_payload w q"
| "step CAPACITY (WCommit w) q = commit_sequence w q"
| "step CAPACITY (ReadCall r) q = get_next_read_sequence CAPACITY r None q"
| "step CAPACITY (ReadIntoCall r d) q = get_next_read_sequence CAPACITY r (Some d) q"
| "step CAPACITY (RWait r) q = wait_for_data r q"
| "step CAPACITY (RCopy r) q = copy_payload r q"
| "step CAPACITY (RUpdate r) q = update_consumer_sequence r q"

fun run :: "64 word \<Rightarrow> 'a disruptor_queue \<Rightarrow> 'a event list \<Rightarrow> 'a disruptor_queue option" where
  "run CAPACITY q [] = Some q"
| "run CAPACITY q (e # es) =
     (case step CAPACITY e q of None \<Rightarrow> None | Some q' \<Rightarrow> run CAPACITY q' es)"

text \<open>
  A whole call of \<^verbatim>\<open>reader::read\<close> run while no other thread moves: the loop of
  \<^verbatim>\<open>wait_for_data\<close> then leaves at its first test or never, and \<open>None\<close> stands for a call
  that does not return. The result is the returned value (for \<^verbatim>\<open>read(output)\<close>: what the
  destination holds at the return) and the state. \<open>read_events\<close> is the same call as a
  schedule.
\<close>

definition read ::
  "64 word \<Rightarrow> nat \<Rightarrow> 'a option \<Rightarrow> 'a disruptor_queue \<Rightarrow> ('a \<times> 'a disruptor_queue) option" where
  "read CAPACITY r dest q =
     (case get_next_read_sequence CAPACITY r dest q of
        None \<Rightarrow> None
      | Some q1 \<Rightarrow>
          (case wait_for_data r q1 of
             None \<Rightarrow> None
           | Some q2 \<Rightarrow>
               if rpc (readers q2 ! r) \<noteq> R_copy then None
               else
                 (case copy_payload r q2 of
                    None \<Rightarrow> None
                  | Some q3 \<Rightarrow>
                      (case update_consumer_sequence r q3 of
                         None \<Rightarrow> None
                       | Some q4 \<Rightarrow> Some (rvalue (readers q4 ! r), q4)))))"

definition read_events :: "nat \<Rightarrow> 'a option \<Rightarrow> 'a event list" where
  "read_events r dest =
     [case dest of None \<Rightarrow> ReadCall r | Some d \<Rightarrow> ReadIntoCall r d, RWait r, RCopy r, RUpdate r]"

text \<open>
  What an execution lets one observe: the values written, in claim order; per step the
  state it started from (\<open>history\<close>); the publications \<open>(slot, sequence)\<close> in the order of
  their stamp stores, and the sequence last published to a slot; the values returned by
  the completed reads of a reader; the number of those reads.
\<close>

fun written :: "'a event \<Rightarrow> 'a list" where
  "written (WriteCall w v) = [v]"
| "written _ = []"

definition claim_order :: "'a event list \<Rightarrow> 'a list" where
  "claim_order tr = concat (map written tr)"

fun history ::
  "64 word \<Rightarrow> 'a disruptor_queue \<Rightarrow> 'a event list \<Rightarrow> ('a event \<times> 'a disruptor_queue) list"
where
  "history CAPACITY q [] = []"
| "history CAPACITY q (e # es) =
     (case step CAPACITY e q of None \<Rightarrow> [] | Some q' \<Rightarrow> (e, q) # history CAPACITY q' es)"

fun published :: "'a event \<Rightarrow> 'a disruptor_queue \<Rightarrow> (nat \<times> int) list" where
  "published (WCommit w) q =
     [(write_index (writers q ! w), claimed_sequence (writers q ! w))]"
| "published _ q = []"

definition publications ::
  "64 word \<Rightarrow> 'a disruptor_queue \<Rightarrow> 'a event list \<Rightarrow> (nat \<times> int) list" where
  "publications CAPACITY q tr = concat (map (\<lambda>(e, s). published e s) (history CAPACITY q tr))"

definition last_published :: "(nat \<times> int) list \<Rightarrow> nat \<Rightarrow> int" where
  "last_published ps i = foldl (\<lambda>s p. if fst p = i then snd p else s) INITIAL_SEQUENCE ps"

fun returned :: "nat \<Rightarrow> 'a event \<Rightarrow> 'a disruptor_queue \<Rightarrow> 'a list" where
  "returned r (RUpdate r') q = (if r' = r then [rvalue (readers q ! r)] else [])"
| "returned r _ q = []"

definition observed ::
  "64 word \<Rightarrow> 'a disruptor_queue \<Rightarrow> nat \<Rightarrow> 'a event list \<Rightarrow> 'a list" where
  "observed CAPACITY q r tr = concat (map (\<lambda>(e, s). returned r e s) (history CAPACITY q tr))"

definition completed_reads :: "nat \<Rightarrow> 'a event list \<Rightarrow> nat" where
  "completed_reads r tr = count_list tr (RUpdate r)"

fun reader_of :: "'a event \<Rightarrow> nat option" where
  "reader_of (ReadCall r) = Some r"
| "reader_of (ReadIntoCall r d) = Some r"
| "reader_of (RWait r) = Some r"
| "reader_of (RCopy r) = Some r"
| "reader_of (RUpdate r) = Some r"
| "reader_of _ = None"

text \<open>
  The capacities for which the class and \<^verbatim>\<open>index_from_sequence\<close> instantiate.
\<close>

definition valid_capacity :: "64 word \<Rightarrow> bool" where
  "valid_capacity CAPACITY \<longleftrightarrow> static_asserts CAPACITY \<and> CAPACITY \<le> 0x7FFFFFFF"

subsection \<open>Invariants of the reachable states\<close>

text \<open>
  \<open>N\<close> is the capacity and \<open>hist\<close> the values written so far, in claim order.
\<close>

definition inv_shape :: "nat \<Rightarrow> 'a disruptor_queue \<Rightarrow> bool" where
  "inv_shape N q \<longleftrightarrow> 0 < N \<and> length (buffer q) = N \<and> length (slot_sequences q) = N"

definition inv_next :: "'a list \<Rightarrow> 'a disruptor_queue \<Rightarrow> bool" where
  "inv_next hist q \<longleftrightarrow> next_sequence q = int (length hist)"

definition inv_reader :: "nat \<Rightarrow> 'a disruptor_queue \<Rightarrow> bool" where
  "inv_reader N q \<longleftrightarrow>
     (\<forall>r < length (readers q).
        - 1 \<le> consumer_sequence (readers q ! r)
        \<and> consumer_sequence (readers q ! r) < next_sequence q
        \<and> (rpc (readers q ! r) \<noteq> R_idle \<longrightarrow>
             next_read_sequence (readers q ! r) = consumer_sequence (readers q ! r) + 1
             \<and> read_index (readers q ! r) = nat (next_read_sequence (readers q ! r) mod int N)
             \<and> read_index (readers q ! r) < N))"

definition inv_slots :: "nat \<Rightarrow> 'a disruptor_queue \<Rightarrow> bool" where
  "inv_slots N q \<longleftrightarrow>
     (\<forall>i < N. slot_sequences q ! i = - 1
        \<or> (0 \<le> slot_sequences q ! i \<and> slot_sequences q ! i < next_sequence q
           \<and> nat (slot_sequences q ! i mod int N) = i))"

definition inv_cache :: "'a disruptor_queue \<Rightarrow> bool" where
  "inv_cache q \<longleftrightarrow>
     (\<forall>w < length (writers q).
        cached_min_consumer_sequence (writers q ! w) \<le> SEQUENCE_MAX
        \<and> (\<forall>r < length (readers q).
              cached_min_consumer_sequence (writers q ! w) \<le> consumer_sequence (readers q ! r)))"

definition inv_claim :: "'a list \<Rightarrow> 'a disruptor_queue \<Rightarrow> bool" where
  "inv_claim hist q \<longleftrightarrow>
     (\<forall>w < length (writers q).
        wpc (writers q ! w) \<noteq> W_idle \<longrightarrow>
          0 \<le> claimed_sequence (writers q ! w)
          \<and> claimed_sequence (writers q ! w) < next_sequence q
          \<and> wvalue (writers q ! w) = hist ! nat (claimed_sequence (writers q ! w)))"

definition inv_granted :: "nat \<Rightarrow> 'a disruptor_queue \<Rightarrow> bool" where
  "inv_granted N q \<longleftrightarrow>
     (\<forall>w < length (writers q).
        wpc (writers q ! w) = W_store \<or> wpc (writers q ! w) = W_commit \<longrightarrow>
          write_index (writers q ! w) = nat (claimed_sequence (writers q ! w) mod int N)
          \<and> write_index (writers q ! w) < N
          \<and> claimed_sequence (writers q ! w) - int N
               \<le> cached_min_consumer_sequence (writers q ! w))"

definition inv_load :: "'a disruptor_queue \<Rightarrow> bool" where
  "inv_load q \<longleftrightarrow>
     (\<forall>w < length (writers q). \<forall>j.
        wpc (writers q ! w) = W_load j \<longrightarrow>
          j < length (readers q) \<and> min_sequence (writers q ! w) \<le> SEQUENCE_MAX
          \<and> (\<forall>r < j. min_sequence (writers q ! w) \<le> consumer_sequence (readers q ! r)))"

definition inv_distinct :: "'a disruptor_queue \<Rightarrow> bool" where
  "inv_distinct q \<longleftrightarrow>
     (\<forall>w < length (writers q). \<forall>w' < length (writers q).
        w \<noteq> w' \<and> wpc (writers q ! w) \<noteq> W_idle \<and> wpc (writers q ! w') \<noteq> W_idle \<longrightarrow>
        claimed_sequence (writers q ! w) \<noteq> claimed_sequence (writers q ! w'))"

definition inv_published :: "nat \<Rightarrow> 'a disruptor_queue \<Rightarrow> bool" where
  "inv_published N q \<longleftrightarrow>
     (\<forall>i < N. \<forall>w < length (writers q).
        wpc (writers q ! w) \<noteq> W_idle \<longrightarrow>
        slot_sequences q ! i \<noteq> claimed_sequence (writers q ! w))"

definition inv_consumed :: "'a disruptor_queue \<Rightarrow> bool" where
  "inv_consumed q \<longleftrightarrow>
     (\<forall>r < length (readers q). \<forall>w < length (writers q).
        wpc (writers q ! w) \<noteq> W_idle \<longrightarrow>
        consumer_sequence (readers q ! r) < claimed_sequence (writers q ! w)
        \<and> (rpc (readers q ! r) = R_copy \<or> rpc (readers q ! r) = R_update \<longrightarrow>
             next_read_sequence (readers q ! r) \<noteq> claimed_sequence (writers q ! w)))"

definition inv_matched :: "'a disruptor_queue \<Rightarrow> bool" where
  "inv_matched q \<longleftrightarrow>
     (\<forall>r < length (readers q).
        rpc (readers q ! r) = R_copy \<or> rpc (readers q ! r) = R_update \<longrightarrow>
        slot_sequences q ! read_index (readers q ! r) = next_read_sequence (readers q ! r)
        \<and> next_read_sequence (readers q ! r) < next_sequence q)"

definition committing :: "'a disruptor_queue \<Rightarrow> nat set" where
  "committing q =
     {write_index (writers q ! w) | w. w < length (writers q) \<and> wpc (writers q ! w) = W_commit}"

definition inv_payload :: "nat \<Rightarrow> 'a list \<Rightarrow> 'a disruptor_queue \<Rightarrow> bool" where
  "inv_payload N hist q \<longleftrightarrow>
     (readers q \<noteq> [] \<longrightarrow>
        (\<forall>i < N. 0 \<le> slot_sequences q ! i \<and> i \<notin> committing q \<longrightarrow>
            buffer q ! i = hist ! nat (slot_sequences q ! i)))"

definition inv_pending :: "'a disruptor_queue \<Rightarrow> bool" where
  "inv_pending q \<longleftrightarrow>
     (readers q \<noteq> [] \<longrightarrow>
        (\<forall>w < length (writers q). wpc (writers q ! w) = W_commit \<longrightarrow>
              buffer q ! write_index (writers q ! w) = wvalue (writers q ! w)))"

definition inv_result :: "'a list \<Rightarrow> 'a disruptor_queue \<Rightarrow> bool" where
  "inv_result hist q \<longleftrightarrow>
     (\<forall>r < length (readers q).
        (rpc (readers q ! r) = R_update \<longrightarrow>
           rvalue (readers q ! r) = hist ! nat (next_read_sequence (readers q ! r)))
        \<and> (rpc (readers q ! r) = R_idle \<and> 0 \<le> consumer_sequence (readers q ! r) \<longrightarrow>
             rvalue (readers q ! r) = hist ! nat (consumer_sequence (readers q ! r))))"

definition inv_backpressure :: "nat \<Rightarrow> 'a disruptor_queue \<Rightarrow> bool" where
  "inv_backpressure N q \<longleftrightarrow>
     (\<forall>i < N. \<forall>r < length (readers q).
        slot_sequences q ! i - int N \<le> consumer_sequence (readers q ! r))"

definition in_flight :: "'a disruptor_queue \<Rightarrow> int set" where
  "in_flight q =
     {claimed_sequence (writers q ! w) | w. w < length (writers q) \<and> wpc (writers q ! w) \<noteq> W_idle}"

definition inv_available :: "nat \<Rightarrow> 'a disruptor_queue \<Rightarrow> bool" where
  "inv_available N q \<longleftrightarrow>
     (readers q \<noteq> [] \<longrightarrow>
        (\<forall>s. 0 \<le> s \<and> s < next_sequence q \<and> s \<notin> in_flight q \<longrightarrow>
           s \<le> slot_sequences q ! nat (s mod int N)))"

definition trace_inv ::
  "64 word \<Rightarrow> 'a disruptor_queue \<Rightarrow> 'a event list \<Rightarrow> 'a disruptor_queue \<Rightarrow> bool" where
  "trace_inv CAPACITY q0 tr q \<longleftrightarrow>
     (\<forall>r < length (readers q).
        consumer_sequence (readers q ! r) = int (completed_reads r tr) - 1
        \<and> observed CAPACITY q0 r tr = take (completed_reads r tr) (claim_order tr))
     \<and> (\<forall>i < unat CAPACITY.
          slot_sequences q ! i = last_published (publications CAPACITY q0 tr) i)
     \<and> (\<forall>p \<in> set (publications CAPACITY q0 tr). 0 \<le> snd p)"

definition invariant :: "nat \<Rightarrow> 'a list \<Rightarrow> 'a disruptor_queue \<Rightarrow> bool" where
  "invariant N hist q \<longleftrightarrow>
     inv_shape N q \<and> inv_next hist q \<and> inv_reader N q \<and> inv_slots N q
     \<and> inv_cache q \<and> inv_claim hist q \<and> inv_granted N q \<and> inv_load q \<and> inv_distinct q \<and> inv_published N q \<and> inv_consumed q
     \<and> inv_matched q \<and> inv_payload N hist q \<and> inv_pending q \<and> inv_result hist q
     \<and> inv_backpressure N q \<and> inv_available N q"

subsection \<open>Revision 1: a read that moves the payload out\<close>

text \<open>
  Revision 1 (lines 1 to 253) has the members, the constructor, \<^verbatim>\<open>create_reader\<close>,
  \<^verbatim>\<open>create_writer\<close>, \<^verbatim>\<open>get_min_consumer_sequence\<close> and the whole writer of revision 2. Its
  reader has \<^verbatim>\<open>read()\<close> only (lines 234 to 251), with the loads, the loop on the stamp and
  the final store of revision 2 written in line. The payload is taken differently:
  \<^verbatim>\<open>value_type value = std::move(_queue._buffer[read_index])\<close> move-constructs the result
  from the slot, which leaves the slot in the moved-from state of the payload type.
  \<open>moved_from\<close> is that state as a function of the value moved: the identity for a type
  whose move is a copy (\<^verbatim>\<open>int\<close>), the empty vector for \<^verbatim>\<open>std::vector\<close>, the null pointer
  for \<^verbatim>\<open>std::unique_ptr\<close>.
\<close>

definition move_payload ::
  "('a \<Rightarrow> 'a) \<Rightarrow> nat \<Rightarrow> 'a disruptor_queue \<Rightarrow> 'a disruptor_queue option" where
  "move_payload moved_from r q =
     (if r < length (readers q) \<and> rpc (readers q ! r) = R_copy
         \<and> read_index (readers q ! r) < length (buffer q)
      then Some (set_reader r
             ((readers q ! r)\<lparr>rpc := R_update, rvalue := buffer q ! read_index (readers q ! r)\<rparr>)
             (q\<lparr>buffer := (buffer q)[read_index (readers q ! r) :=
                                      moved_from (buffer q ! read_index (readers q ! r))]\<rparr>))
      else None)"

fun step_r1 ::
  "('a \<Rightarrow> 'a) \<Rightarrow> 64 word \<Rightarrow> 'a event \<Rightarrow> 'a disruptor_queue \<Rightarrow> 'a disruptor_queue option"
where
  "step_r1 moved_from CAPACITY (RCopy r) q = move_payload moved_from r q"
| "step_r1 moved_from CAPACITY (ReadIntoCall r d) q = None"
| "step_r1 moved_from CAPACITY e q = step CAPACITY e q"

fun run_r1 ::
  "('a \<Rightarrow> 'a) \<Rightarrow> 64 word \<Rightarrow> 'a disruptor_queue \<Rightarrow> 'a event list \<Rightarrow> 'a disruptor_queue option"
where
  "run_r1 moved_from CAPACITY q [] = Some q"
| "run_r1 moved_from CAPACITY q (e # es) =
     (case step_r1 moved_from CAPACITY e q of
        None \<Rightarrow> None
      | Some q' \<Rightarrow> run_r1 moved_from CAPACITY q' es)"

subsection \<open>Revision 3: sequences claimed from \_producer\_sequence\<close>

text \<open>
  Revision 3 (lines 554 to 749) has no slot sequences. Its members are the buffer, which
  the defaulted constructor does not initialise (\<open>init i\<close> is what slot \<open>i\<close> holds at
  first); \<^verbatim>\<open>_producer_sequence\<close>, the counter from which writers claim, initialised to 1;
  and \<^verbatim>\<open>_available_sequence\<close>, initialised to 1, which a writer sets to its sequence once
  the sequence before has been published and below which readers wait. A reader's
  \<^verbatim>\<open>_consumer_sequence\<close> has no initialiser (\<open>c0\<close> is its first content); a writer's
  \<^verbatim>\<open>_min_consumer_sequence\<close> starts at 0.

  A writer is at \<open>W3_wait\<close> (sequence claimed, at the test of \<^verbatim>\<open>wait_for_no_wrap\<close>),
  \<open>W3_load j\<close> (in \<^verbatim>\<open>get_min_consumer_sequence\<close>, about to load the sequence of reader
  \<open>j\<close>), \<open>W3_store\<close> (about to assign the payload), \<open>W3_previous\<close> (at the test of the
  loop on \<^verbatim>\<open>_available_sequence\<close>) or \<open>W3_publish\<close> (about to store it). Readers have the
  program counters and the locals of revision 2.
\<close>

datatype writer_pc_r3 = W3_idle | W3_wait | W3_load nat | W3_store | W3_previous | W3_publish

record 'a writer_r3 =
  min_consumer_sequence_r3 :: int
  wpc_r3 :: writer_pc_r3
  wvalue_r3 :: 'a
  claimed_sequence_r3 :: int
  write_index_r3 :: nat
  min_sequence_r3 :: int

record 'a disruptor_queue_r3 =
  buffer_r3 :: "'a list"
  producer_sequence :: int
  available_sequence :: int
  readers_r3 :: "'a reader list"
  writers_r3 :: "'a writer_r3 list"

definition new_queue_r3 :: "64 word \<Rightarrow> (nat \<Rightarrow> 'a) \<Rightarrow> 'a disruptor_queue_r3" where
  "new_queue_r3 CAPACITY init =
     \<lparr>buffer_r3 = map init [0..<unat CAPACITY], producer_sequence = 1,
      available_sequence = 1, readers_r3 = [], writers_r3 = []\<rparr>"

definition new_writer_r3 :: "'a \<Rightarrow> 'a writer_r3" where
  "new_writer_r3 dflt =
     \<lparr>min_consumer_sequence_r3 = 0, wpc_r3 = W3_idle, wvalue_r3 = dflt,
      claimed_sequence_r3 = 0, write_index_r3 = 0, min_sequence_r3 = 0\<rparr>"

definition create_reader_r3 :: "'a \<Rightarrow> 'a disruptor_queue_r3 \<Rightarrow> int \<Rightarrow> 'a disruptor_queue_r3" where
  "create_reader_r3 dflt q c0 =
     q\<lparr>readers_r3 := readers_r3 q @ [(new_reader dflt)\<lparr>consumer_sequence := c0\<rparr>]\<rparr>"

definition create_writer_r3 :: "'a \<Rightarrow> 'a disruptor_queue_r3 \<Rightarrow> 'a disruptor_queue_r3" where
  "create_writer_r3 dflt q = q\<lparr>writers_r3 := writers_r3 q @ [new_writer_r3 dflt]\<rparr>"

text \<open>
  The queue before any traffic: one reader for each element of \<open>cs\<close> (its first consumer
  sequence), and \<open>nw\<close> writers.
\<close>

definition setup_queue_r3 ::
  "64 word \<Rightarrow> (nat \<Rightarrow> 'a) \<Rightarrow> 'a \<Rightarrow> int list \<Rightarrow> nat \<Rightarrow> 'a disruptor_queue_r3" where
  "setup_queue_r3 CAPACITY init dflt cs nw =
     ((create_writer_r3 dflt) ^^ nw)
       (foldl (create_reader_r3 dflt) (new_queue_r3 CAPACITY init) cs)"

definition set_writer_r3 ::
  "nat \<Rightarrow> 'a writer_r3 \<Rightarrow> 'a disruptor_queue_r3 \<Rightarrow> 'a disruptor_queue_r3" where
  "set_writer_r3 w x q = q\<lparr>writers_r3 := (writers_r3 q)[w := x]\<rparr>"

definition set_reader_r3 ::
  "nat \<Rightarrow> 'a reader \<Rightarrow> 'a disruptor_queue_r3 \<Rightarrow> 'a disruptor_queue_r3" where
  "set_reader_r3 r x q = q\<lparr>readers_r3 := (readers_r3 q)[r := x]\<rparr>"

text \<open>
  \<^verbatim>\<open>writer::write\<close> (lines 683 to 704) claims with \<^verbatim>\<open>_producer_sequence.fetch_add(1)\<close>.
\<close>

definition fetch_add_r3 ::
  "nat \<Rightarrow> 'a \<Rightarrow> 'a disruptor_queue_r3 \<Rightarrow> 'a disruptor_queue_r3 option" where
  "fetch_add_r3 w v q =
     (if w < length (writers_r3 q) \<and> wpc_r3 (writers_r3 q ! w) = W3_idle
      then Some (set_writer_r3 w
             ((writers_r3 q ! w)\<lparr>wpc_r3 := W3_wait, wvalue_r3 := v,
                claimed_sequence_r3 := producer_sequence q\<rparr>)
             (q\<lparr>producer_sequence := wrap64 (producer_sequence q + 1)\<rparr>))
      else None)"

text \<open>
  The test of the loop of \<^verbatim>\<open>wait_for_no_wrap\<close> (lines 706 to 718). While the wrap point
  is above \<^verbatim>\<open>_min_consumer_sequence\<close> the readers are scanned again: with no reader the
  scan ends at once with the maximum. Otherwise the call returns and \<^verbatim>\<open>write\<close> computes
  its index.
\<close>

definition wait_for_no_wrap_r3 ::
  "64 word \<Rightarrow> nat \<Rightarrow> 'a disruptor_queue_r3 \<Rightarrow> 'a disruptor_queue_r3 option" where
  "wait_for_no_wrap_r3 CAPACITY w q =
     (if wrap64 (claimed_sequence_r3 (writers_r3 q ! w) - sint CAPACITY)
           > min_consumer_sequence_r3 (writers_r3 q ! w)
      then
        if readers_r3 q = []
        then Some (set_writer_r3 w
               ((writers_r3 q ! w)\<lparr>min_consumer_sequence_r3 := SEQUENCE_MAX\<rparr>) q)
        else Some (set_writer_r3 w
               ((writers_r3 q ! w)\<lparr>wpc_r3 := W3_load 0, min_sequence_r3 := SEQUENCE_MAX\<rparr>) q)
      else
        (case index_from_sequence CAPACITY (claimed_sequence_r3 (writers_r3 q ! w)) of
           None \<Rightarrow> None
         | Some i \<Rightarrow>
             Some (set_writer_r3 w
               ((writers_r3 q ! w)\<lparr>wpc_r3 := W3_store, write_index_r3 := i\<rparr>) q)))"

definition load_consumer_sequence_r3 ::
  "nat \<Rightarrow> nat \<Rightarrow> 'a disruptor_queue_r3 \<Rightarrow> 'a disruptor_queue_r3 option" where
  "load_consumer_sequence_r3 w j q =
     (if j < length (readers_r3 q)
      then
        if Suc j < length (readers_r3 q)
        then Some (set_writer_r3 w
               ((writers_r3 q ! w)\<lparr>wpc_r3 := W3_load (Suc j),
                  min_sequence_r3 := min (min_sequence_r3 (writers_r3 q ! w))
                                         (consumer_sequence (readers_r3 q ! j))\<rparr>) q)
        else Some (set_writer_r3 w
               ((writers_r3 q ! w)\<lparr>wpc_r3 := W3_wait,
                  min_consumer_sequence_r3 :=
                    min (min_sequence_r3 (writers_r3 q ! w))
                        (consumer_sequence (readers_r3 q ! j))\<rparr>) q)
      else None)"

definition store_payload_r3 :: "nat \<Rightarrow> 'a disruptor_queue_r3 \<Rightarrow> 'a disruptor_queue_r3 option" where
  "store_payload_r3 w q =
     (if write_index_r3 (writers_r3 q ! w) < length (buffer_r3 q)
      then Some (set_writer_r3 w ((writers_r3 q ! w)\<lparr>wpc_r3 := W3_previous\<rparr>)
             (q\<lparr>buffer_r3 := (buffer_r3 q)[write_index_r3 (writers_r3 q ! w) :=
                                            wvalue_r3 (writers_r3 q ! w)]\<rparr>))
      else None)"

text \<open>
  The loop \<^verbatim>\<open>while (_available_sequence.load() != previous_sequence)\<close> and the store of
  the claimed sequence that follows it.
\<close>

definition wait_for_previous_r3 :: "nat \<Rightarrow> 'a disruptor_queue_r3 \<Rightarrow> 'a disruptor_queue_r3 option" where
  "wait_for_previous_r3 w q =
     (if available_sequence q \<noteq> wrap64 (claimed_sequence_r3 (writers_r3 q ! w) - 1)
      then Some q
      else Some (set_writer_r3 w ((writers_r3 q ! w)\<lparr>wpc_r3 := W3_publish\<rparr>) q))"

definition publish_r3 :: "nat \<Rightarrow> 'a disruptor_queue_r3 \<Rightarrow> 'a disruptor_queue_r3 option" where
  "publish_r3 w q =
     Some (set_writer_r3 w ((writers_r3 q ! w)\<lparr>wpc_r3 := W3_idle\<rparr>)
       (q\<lparr>available_sequence := claimed_sequence_r3 (writers_r3 q ! w)\<rparr>))"

text \<open>
  The next atomic step of writer \<open>w\<close> inside a call of \<^verbatim>\<open>write\<close>.
\<close>

definition writer_step_r3 ::
  "64 word \<Rightarrow> nat \<Rightarrow> 'a disruptor_queue_r3 \<Rightarrow> 'a disruptor_queue_r3 option" where
  "writer_step_r3 CAPACITY w q =
     (if w < length (writers_r3 q)
      then
        (case wpc_r3 (writers_r3 q ! w) of
           W3_idle \<Rightarrow> None
         | W3_wait \<Rightarrow> wait_for_no_wrap_r3 CAPACITY w q
         | W3_load j \<Rightarrow> load_consumer_sequence_r3 w j q
         | W3_store \<Rightarrow> store_payload_r3 w q
         | W3_previous \<Rightarrow> wait_for_previous_r3 w q
         | W3_publish \<Rightarrow> publish_r3 w q)
      else None)"

text \<open>
  \<^verbatim>\<open>reader::read\<close> (lines 728 to 747): the load of the own sequence, the loop
  \<^verbatim>\<open>while (next_read_sequence > _queue._available_sequence.load())\<close>, the copy of the
  slot and the store of the sequence. The index passes through the local
  \<^verbatim>\<open>const int read_index\<close>, which holds the \<^verbatim>\<open>int\<close> that \<^verbatim>\<open>mod_power_of_two\<close> returned.
\<close>

definition get_next_read_sequence_r3 ::
  "64 word \<Rightarrow> nat \<Rightarrow> 'a disruptor_queue_r3 \<Rightarrow> 'a disruptor_queue_r3 option" where
  "get_next_read_sequence_r3 CAPACITY r q =
     (if r < length (readers_r3 q) \<and> rpc (readers_r3 q ! r) = R_idle
      then
        (case index_from_sequence CAPACITY (wrap64 (consumer_sequence (readers_r3 q ! r) + 1)) of
           None \<Rightarrow> None
         | Some i \<Rightarrow>
             Some (set_reader_r3 r
               ((readers_r3 q ! r)\<lparr>rpc := R_wait,
                  next_read_sequence := wrap64 (consumer_sequence (readers_r3 q ! r) + 1),
                  read_index := i\<rparr>) q))
      else None)"

definition reader_step_r3 :: "nat \<Rightarrow> 'a disruptor_queue_r3 \<Rightarrow> 'a disruptor_queue_r3 option" where
  "reader_step_r3 r q =
     (if r < length (readers_r3 q)
      then
        (case rpc (readers_r3 q ! r) of
           R_idle \<Rightarrow> None
         | R_wait \<Rightarrow>
             if next_read_sequence (readers_r3 q ! r) > available_sequence q
             then Some q
             else Some (set_reader_r3 r ((readers_r3 q ! r)\<lparr>rpc := R_copy\<rparr>) q)
         | R_copy \<Rightarrow>
             if read_index (readers_r3 q ! r) < length (buffer_r3 q)
             then Some (set_reader_r3 r
                    ((readers_r3 q ! r)\<lparr>rpc := R_update,
                       rvalue := buffer_r3 q ! read_index (readers_r3 q ! r)\<rparr>) q)
             else None
         | R_update \<Rightarrow>
             Some (set_reader_r3 r
               ((readers_r3 q ! r)\<lparr>rpc := R_idle,
                  consumer_sequence := next_read_sequence (readers_r3 q ! r)\<rparr>) q))
      else None)"

text \<open>
  Events of revision 3: a call of \<^verbatim>\<open>write\<close> or \<^verbatim>\<open>read\<close> begins (with its first shared
  access), or a thread inside a call takes its next step.
\<close>

datatype 'a event_r3 =
    Write_r3 nat 'a
  | Writer_r3 nat
  | Read_r3 nat
  | Reader_r3 nat

fun step_r3 ::
  "64 word \<Rightarrow> 'a event_r3 \<Rightarrow> 'a disruptor_queue_r3 \<Rightarrow> 'a disruptor_queue_r3 option" where
  "step_r3 CAPACITY (Write_r3 w v) q = fetch_add_r3 w v q"
| "step_r3 CAPACITY (Writer_r3 w) q = writer_step_r3 CAPACITY w q"
| "step_r3 CAPACITY (Read_r3 r) q = get_next_read_sequence_r3 CAPACITY r q"
| "step_r3 CAPACITY (Reader_r3 r) q = reader_step_r3 r q"

fun run_r3 ::
  "64 word \<Rightarrow> 'a disruptor_queue_r3 \<Rightarrow> 'a event_r3 list \<Rightarrow> 'a disruptor_queue_r3 option" where
  "run_r3 CAPACITY q [] = Some q"
| "run_r3 CAPACITY q (e # es) =
     (case step_r3 CAPACITY e q of None \<Rightarrow> None | Some q' \<Rightarrow> run_r3 CAPACITY q' es)"

text \<open>
  The number of claims of an execution of revision 3.
\<close>

fun claims_r3 :: "'a event_r3 list \<Rightarrow> nat" where
  "claims_r3 [] = 0"
| "claims_r3 (Write_r3 w v # es) = Suc (claims_r3 es)"
| "claims_r3 (e # es) = claims_r3 es"

section \<open>Properties of the bit utilities\<close>

lemma MAX_POWER_eq: "MAX_POWER = 0x8000000000000000"
  by (simp add: MAX_POWER_def SIZE_MAX_def)

lemma and_pred_nat_iff:
  "0 < n \<Longrightarrow> (n AND (n - 1) = 0) = (\<exists>k. n = 2 ^ k)" for n :: nat
proof (induction n rule: less_induct)
  case (less n)
  show ?case
  proof (cases "even n")
    case True
    then obtain m where n: "n = 2 * m" by (elim evenE)
    with less.prems have m: "0 < m" by simp
    have pred: "(n - 1) div 2 = m - 1" "odd (n - 1)"
      using n m by auto
    have "n AND (n - 1) = 2 * (m AND (m - 1))"
      using n pred True by (subst and_nat_rec) simp
    then have "(n AND (n - 1) = 0) = (m AND (m - 1) = 0)" by simp
    also have "\<dots> = (\<exists>k. m = 2 ^ k)"
      using less.IH [of m] m n by simp
    also have "\<dots> = (\<exists>k. n = 2 ^ k)"
    proof
      assume "\<exists>k. m = 2 ^ k"
      then obtain k where "m = 2 ^ k" ..
      then have "n = 2 ^ Suc k" using n by simp
      then show "\<exists>k. n = 2 ^ k" ..
    next
      assume "\<exists>k. n = 2 ^ k"
      then obtain k where k: "n = 2 ^ k" ..
      with True less.prems have "k \<noteq> 0" by (cases k) auto
      then obtain j where "k = Suc j" by (cases k) auto
      with k n have "m = 2 ^ j" by simp
      then show "\<exists>k. m = 2 ^ k" ..
    qed
    finally show ?thesis .
  next
    case False
    then have pred: "(n - 1) div 2 = n div 2" "even (n - 1)"
      by (auto elim!: oddE)
    have "n AND (n - 1) = 2 * (n div 2)"
      using pred False by (subst and_nat_rec) simp
    then have "(n AND (n - 1) = 0) = (n = 1)"
      using False by (auto elim!: oddE)
    also have "\<dots> = (\<exists>k. n = 2 ^ k)"
    proof
      assume "n = 1"
      then have "n = 2 ^ 0" by simp
      then show "\<exists>k. n = 2 ^ k" ..
    next
      assume "\<exists>k. n = 2 ^ k"
      then obtain k where k: "n = 2 ^ k" ..
      with False have "k = 0" by (cases k) auto
      with k show "n = 1" by simp
    qed
    finally show ?thesis .
  qed
qed

lemma unat_two_power:
  "k < LENGTH('a) \<Longrightarrow> unat ((2::'a::len word) ^ k) = 2 ^ k"
  by (simp add: unsigned_push_bit_eq [of k 1, simplified push_bit_eq_mult, simplified]
      take_bit_nat_eq_self)

lemma is_power_of_two_iff:
  "is_power_of_two n \<longleftrightarrow> (\<exists>k < LENGTH('a). n = 2 ^ k)" for n :: "'a::len word"
proof (cases "n = 0")
  case True
  then show ?thesis by (auto simp: is_power_of_two_def)
next
  case False
  then have pos: "0 < unat n" by (simp add: unat_gt_0)
  have "unat (n AND (n - 1)) = unat n AND (unat n - 1)"
    using False by (simp add: unsigned_and_eq unat_minus_one)
  then have "(n AND (n - 1) = 0) = (unat n AND (unat n - 1) = 0)"
    by (metis unat_eq_0)
  also have "\<dots> = (\<exists>k. unat n = 2 ^ k)"
    using pos by (rule and_pred_nat_iff)
  also have "\<dots> = (\<exists>k < LENGTH('a). n = 2 ^ k)"
  proof
    assume "\<exists>k. unat n = 2 ^ k"
    then obtain k where k: "unat n = 2 ^ k" ..
    have "unat n < 2 ^ LENGTH('a)" by (rule unsigned_less)
    with k have "k < LENGTH('a)" by simp
    moreover have "n = 2 ^ k"
    proof -
      have "n = word_of_nat (unat n)" by simp
      also have "\<dots> = 2 ^ k" by (simp only: k) simp
      finally show ?thesis .
    qed
    ultimately show "\<exists>k < LENGTH('a). n = 2 ^ k" by blast
  next
    assume "\<exists>k < LENGTH('a). n = 2 ^ k"
    then obtain k where "k < LENGTH('a)" "n = 2 ^ k" by blast
    then have "unat n = 2 ^ k" by (simp add: unat_two_power)
    then show "\<exists>k. unat n = 2 ^ k" ..
  qed
  finally show ?thesis using False by (simp add: is_power_of_two_def)
qed

lemma mod_power_of_two_exp:
  assumes "k < 31"
  shows "mod_power_of_two (2 ^ k) d = Some (take_bit k d)"
proof -
  have "(2 ^ k :: 32 word) \<noteq> INT_MIN"
  proof
    assume "(2 ^ k :: 32 word) = INT_MIN"
    then have "unat (2 ^ k :: 32 word) = unat INT_MIN" by simp
    then have "(2::nat) ^ k = 2 ^ 31"
      using assms by (simp add: INT_MIN_def unat_two_power)
    moreover have "(2::nat) ^ k < 2 ^ 31"
      using assms by (intro power_strict_increasing) auto
    ultimately show False by simp
  qed
  moreover have "is_power_of_two (2 ^ k :: 32 word)"
    using assms by (auto simp: is_power_of_two_iff intro!: exI [of _ k])
  moreover have "d AND (2 ^ k - 1) = take_bit k d"
    by (simp add: take_bit_eq_mask mask_eq_exp_minus_1)
  ultimately show ?thesis by (simp add: mod_power_of_two_def)
qed

lemma index_from_sequence_exp:
  assumes "k < 31"
  shows "index_from_sequence (2 ^ k) s = Some (nat (s mod 2 ^ k))"
proof -
  have "(2::nat) ^ k \<le> 2 ^ 30" using assms by (intro power_increasing) auto
  then have le: "(2 ^ k :: 64 word) \<le> 0x7FFFFFFF"
    using assms by (simp add: word_le_nat_alt unat_two_power)
  have uc: "(ucast (2 ^ k :: 64 word) :: 32 word) = 2 ^ k"
    using assms by (intro bit_word_eqI) (auto simp: bit_ucast_iff bit_exp_iff)
  let ?r = "take_bit k (word_of_int s :: 32 word)"
  have "index_from_sequence (2 ^ k) s = Some (unat (scast ?r :: 64 word))"
    using le uc assms by (simp add: index_from_sequence_def mod_power_of_two_exp)
  moreover have "unat (scast ?r :: 64 word) = nat (s mod 2 ^ k)"
  proof -
    have "(scast ?r :: 64 word) = take_bit k (word_of_int s)"
      using assms
      by (intro bit_word_eqI)
        (auto simp: bit_word_scast_iff bit_take_bit_iff bit_word_of_int_iff)
    then have "uint (scast ?r :: 64 word) = uint (take_bit k (word_of_int s :: 64 word))"
      by (rule arg_cong)
    also have "\<dots> = take_bit k (uint (word_of_int s :: 64 word))"
      by (rule unsigned_take_bit_eq)
    also have "\<dots> = take_bit k (take_bit 64 s)"
      by (simp add: uint_word_of_int take_bit_eq_mod)
    also have "\<dots> = take_bit k s"
      using assms by (simp add: min_def)
    also have "\<dots> = s mod 2 ^ k" by (rule take_bit_eq_mod)
    finally have "uint (scast ?r :: 64 word) = s mod 2 ^ k" .
    then show ?thesis by (simp add: unat_eq_nat_uint)
  qed
  ultimately show ?thesis by simp
qed

lemma shl_int_one:
  assumes "b < 32"
  shows "shl_int 1 (word_of_nat b) = Some (2 ^ b)"
proof -
  have "unat (word_of_nat b :: 64 word) = b"
    using assms by (simp add: unat_of_nat)
  then show ?thesis
    using assms by (simp add: shl_int_def word_less_nat_alt)
qed

lemma scast_two_power:
  assumes "b < 31"
  shows "(scast (2 ^ b :: 32 word) :: 64 word) = 2 ^ b"
  using assms
  by (intro bit_word_eqI) (auto simp: bit_word_scast_iff bit_exp_iff)

lemma scast_sign_bit:
  "(scast (2 ^ 31 :: 32 word) :: 64 word) = 18446744071562067968"
  by simp

lemma ceil_to_power_of_two_from:
  assumes "b \<le> 31" and "N \<le> MAX_POWER" and "\<forall>j<b. 2 ^ j < unat N"
    and "ceil_to_power_of_two N (word_of_nat b) = Some c" and "unat c < 2 ^ 63"
  shows "\<exists>k. b \<le> k \<and> k < 31 \<and> c = 2 ^ k \<and> unat N \<le> 2 ^ k \<and> (\<forall>j<k. 2 ^ j < unat N)"
  using assms
proof (induction "31 - b" arbitrary: b)
  case 0
  then have b: "b = 31" by simp
  have nm: "\<not> MAX_POWER < N" using "0.prems"(2) by simp
  have "(word_of_nat 31 :: 64 word) + 1 = word_of_nat 32" by simp
  moreover have "shl_int 1 (word_of_nat 32) = None"
    by (simp add: shl_int_def)
  ultimately have nx: "ceil_to_power_of_two N (word_of_nat 31 + 1) = None"
    using nm by (subst ceil_to_power_of_two.simps) simp
  have sh: "shl_int 1 (word_of_nat 31) = Some (2 ^ 31)"
    by (rule shl_int_one) simp
  have "c = 18446744071562067968"
    using "0.prems"(4) nm unfolding b
    by (subst (asm) ceil_to_power_of_two.simps)
      (simp only: sh nx scast_sign_bit option.case Let_def if_False split: if_splits, simp_all)
  with "0.prems"(5) show ?case by simp
next
  case (Suc d)
  then have b: "b < 31" by simp
  have nm: "\<not> MAX_POWER < N" using Suc.prems(2) by simp
  have ne: "(word_of_nat b :: 64 word) \<noteq> MAX_POWER"
  proof
    assume "(word_of_nat b :: 64 word) = MAX_POWER"
    then have "unat (word_of_nat b :: 64 word) = unat MAX_POWER" by simp
    then show False using b by (simp add: unat_of_nat MAX_POWER_eq)
  qed
  have le: "(N \<le> (2 ^ b :: 64 word)) = (unat N \<le> 2 ^ b)"
    using b by (simp add: word_le_nat_alt unat_two_power)
  have sc: "(word_of_nat b :: 64 word) + 1 = word_of_nat (Suc b)"
    "1 + (word_of_nat b :: 64 word) = word_of_nat (Suc b)" by simp_all
  from Suc.prems(4) have step:
    "(if unat N \<le> 2 ^ b then Some (2 ^ b)
      else ceil_to_power_of_two N (word_of_nat (Suc b))) = Some c"
    using nm ne b
    by (subst (asm) ceil_to_power_of_two.simps)
      (simp add: shl_int_one scast_two_power le sc del: of_nat_Suc split: if_splits)
  show ?case
  proof (cases "unat N \<le> 2 ^ b")
    case True
    with step have "c = 2 ^ b" by simp
    with True b Suc.prems(3) show ?thesis by blast
  next
    case False
    with step have r: "ceil_to_power_of_two N (word_of_nat (Suc b)) = Some c" by simp
    have all: "\<forall>j<Suc b. 2 ^ j < unat N"
      using False Suc.prems(3) by (auto simp: less_Suc_eq)
    have "d = 31 - Suc b" using Suc.hyps(2) by simp
    from Suc.hyps(1) [OF this _ Suc.prems(2) all r Suc.prems(5)] b
    obtain k where "Suc b \<le> k" "k < 31" "c = 2 ^ k" "unat N \<le> 2 ^ k" "\<forall>j<k. 2 ^ j < unat N"
      by auto
    then show ?thesis by (intro exI [of _ k]) simp
  qed
qed

lemma capacity_r3_rounds_up:
  assumes "0 < sizeof_T" and "max_object_size \<le> PTRDIFF_MAX"
    and "capacity_r3 max_object_size sizeof_T N = Some c"
  shows "\<exists>k<31. c = 2 ^ k \<and> unat N \<le> 2 ^ k \<and> (\<forall>j. unat N \<le> 2 ^ j \<longrightarrow> k \<le> j)"
proof -
  from assms(3) have ce: "ceil_to_power_of_two N 0 = Some c"
    and fit: "sizeof_T * unat c \<le> max_object_size"
    by (auto simp: capacity_r3_def CAPACITY_r3_def members_fit_r3_def
        split: option.splits if_splits)
  have "unat c \<le> sizeof_T * unat c" using assms(1) by (cases sizeof_T) simp_all
  with fit assms(2) have "unat c \<le> PTRDIFF_MAX" by linarith
  then have small: "unat c < 2 ^ 63" by (simp add: PTRDIFF_MAX_def)
  have le: "N \<le> MAX_POWER"
  proof (rule ccontr)
    assume "\<not> N \<le> MAX_POWER"
    then have "MAX_POWER < N" by (simp add: not_le)
    then have "ceil_to_power_of_two N 0 = Some MAX_POWER"
      by (subst ceil_to_power_of_two.simps) simp
    with ce have "c = MAX_POWER" by simp
    with small show False by (simp add: MAX_POWER_eq)
  qed
  have ce': "ceil_to_power_of_two N (word_of_nat 0) = Some c" using ce by simp
  from ceil_to_power_of_two_from [OF _ le _ ce' small]
  obtain k where k: "k < 31" "c = 2 ^ k" "unat N \<le> 2 ^ k" "\<forall>j<k. 2 ^ j < unat N"
    by auto
  have "k \<le> j" if "unat N \<le> 2 ^ j" for j
    using that k(4) by (meson not_le order.strict_trans2 less_irrefl)
  with k show ?thesis by blast
qed

lemma capacity_r3_power_of_two:
  assumes "0 < sizeof_T" and "max_object_size \<le> PTRDIFF_MAX"
    and "capacity_r3 max_object_size sizeof_T N = Some c" and "m < 64" and "N = 2 ^ m"
  shows "c = N"
proof -
  from capacity_r3_rounds_up [OF assms(1-3)]
  obtain k where k: "k < 31" "c = 2 ^ k" "unat N \<le> 2 ^ k" "\<forall>j. unat N \<le> 2 ^ j \<longrightarrow> k \<le> j"
    by blast
  have u: "unat N = 2 ^ m" using assms(4,5) by (simp add: unat_two_power)
  with k(4) have "k \<le> m" by simp
  moreover from k(3) u have "m \<le> k" by simp
  ultimately show ?thesis using k(2) assms(5) by simp
qed

lemma capacity_power_of_two:
  assumes "0 < sizeof_T" and "max_object_size \<le> PTRDIFF_MAX"
    and "capacity max_object_size sizeof_T N = Some c"
  shows "c = N \<and> (\<exists>k<60. N = 2 ^ k)"
proof -
  from assms(3) have c: "c = N" and p: "is_power_of_two N"
    and fit: "sizeof_T * unat N + 8 * unat N \<le> max_object_size"
    by (auto simp: capacity_def static_asserts_def members_fit_def split: if_splits)
  from p obtain k where k: "k < 64" "N = 2 ^ k" by (auto simp: is_power_of_two_iff)
  then have u: "unat N = 2 ^ k" by (simp add: unat_two_power)
  have "unat N \<le> sizeof_T * unat N" using assms(1) by (cases sizeof_T) simp_all
  with fit assms(2) have "9 * unat N \<le> PTRDIFF_MAX" by linarith
  then have "(2::nat) ^ k < 2 ^ 60" by (simp add: PTRDIFF_MAX_def u)
  then have "k < 60" by (rule power_less_imp_less_exp [rotated]) simp
  with c k(2) show ?thesis by blast
qed


lemma not_power_of_two_3: "\<not> (\<exists>k<64. (3 :: 64 word) = 2 ^ k)"
proof
  assume "\<exists>k<64. (3 :: 64 word) = 2 ^ k"
  then obtain k where k: "(3 :: 64 word) = 2 ^ k" by blast
  show False
  proof (cases k)
    case 0
    with k show False by simp
  next
    case (Suc j)
    with k have "(3 :: 64 word) = 2 * 2 ^ j" by simp
    then have "even (3 :: 64 word)" by (metis dvd_triv_left)
    then show False by simp
  qed
qed

text \<open>
  C7, as stated, on revision 3 with \<^verbatim>\<open>disruptor_queue<int, 100>\<close> (the type of the
  repository's own test): the type is instantiated although 100 is not a power of two,
  and \<^verbatim>\<open>capacity()\<close> is 128.
\<close>

theorem capacity_r3_of_100:
  "capacity_r3 PTRDIFF_MAX 4 100 = Some 128 \<and> (128 :: 64 word) \<noteq> 100
   \<and> \<not> is_power_of_two (100 :: 64 word)"
  by (simp add: capacity_r3_def CAPACITY_r3_def members_fit_r3_def PTRDIFF_MAX_def
      ceil_to_power_of_two.simps MAX_POWER_eq shl_int_def is_power_of_two_def
      word_le_nat_alt word_less_nat_alt)

text \<open>
  C7, amended. Let \<open>N\<close> be the capacity parameter, on an implementation whose objects
  have at most \<^verbatim>\<open>PTRDIFF_MAX\<close> bytes. In revision 2 (static assertions): when the type is
  instantiated, \<^verbatim>\<open>capacity()\<close> is exactly \<open>N\<close> and \<open>N\<close> is a power of two (below \<open>2 ^ 60\<close>,
  for the arrays to fit); every \<open>N\<close> that is not a power of two, zero included, is
  rejected. In revision 3 (\<^verbatim>\<open>CAPACITY = ceil_to_power_of_two(SIZE)\<close>): when the type is
  instantiated, \<^verbatim>\<open>capacity()\<close> is the smallest power of two not below \<open>N\<close> (at most
  \<open>2 ^ 30\<close>), which is \<open>N\<close> itself when \<open>N\<close> is a power of two; not being a power of two
  does not reject \<open>N\<close>, as the size 100 shows.
\<close>

theorem capacity_exact_or_rounded_up:
  assumes "0 < sizeof_T" and "max_object_size \<le> PTRDIFF_MAX"
  shows "(\<forall>c. capacity max_object_size sizeof_T N = Some c \<longrightarrow> c = N \<and> (\<exists>k<60. N = 2 ^ k))
    \<and> (\<not> (\<exists>k<64. N = 2 ^ k) \<longrightarrow> capacity max_object_size sizeof_T N = None)
    \<and> (\<forall>c. capacity_r3 max_object_size sizeof_T N = Some c \<longrightarrow>
          (\<exists>k<31. c = 2 ^ k \<and> unat N \<le> 2 ^ k \<and> (\<forall>j. unat N \<le> 2 ^ j \<longrightarrow> k \<le> j))
          \<and> ((\<exists>m<64. N = 2 ^ m) \<longrightarrow> c = N))"
proof -
  have "capacity max_object_size sizeof_T N = None" if "\<not> (\<exists>k<64. N = 2 ^ k)"
    using that by (simp add: capacity_def static_asserts_def is_power_of_two_iff)
  with capacity_power_of_two [OF assms] capacity_r3_rounds_up [OF assms]
    capacity_r3_power_of_two [OF assms]
  show ?thesis by blast
qed

theorem capacity_exact_or_rounded_up_witness:
  "(0::nat) < 4 \<and> PTRDIFF_MAX \<le> PTRDIFF_MAX
   \<and> capacity PTRDIFF_MAX 4 16 = Some 16
   \<and> \<not> (\<exists>k<64. (3 :: 64 word) = 2 ^ k) \<and> capacity PTRDIFF_MAX 4 3 = None
   \<and> capacity_r3 PTRDIFF_MAX 4 100 = Some 128
   \<and> (\<exists>k<31. (128 :: 64 word) = 2 ^ k \<and> unat (100 :: 64 word) \<le> 2 ^ k
         \<and> (\<forall>j. unat (100 :: 64 word) \<le> 2 ^ j \<longrightarrow> k \<le> j))
   \<and> capacity_r3 PTRDIFF_MAX 4 16 = Some 16"
proof -
  have s: "(0::nat) < 4" and m: "PTRDIFF_MAX \<le> PTRDIFF_MAX" by simp_all
  have a: "capacity PTRDIFF_MAX 4 16 = Some 16"
    by (simp add: capacity_def static_asserts_def members_fit_def PTRDIFF_MAX_def
        is_power_of_two_def)
  have b: "capacity_r3 PTRDIFF_MAX 4 100 = Some 128"
    by (simp add: capacity_r3_def CAPACITY_r3_def members_fit_r3_def PTRDIFF_MAX_def
        ceil_to_power_of_two.simps MAX_POWER_eq shl_int_def
        word_le_nat_alt word_less_nat_alt)
  have c: "capacity_r3 PTRDIFF_MAX 4 16 = Some 16"
    by (simp add: capacity_r3_def CAPACITY_r3_def members_fit_r3_def PTRDIFF_MAX_def
        ceil_to_power_of_two.simps MAX_POWER_eq shl_int_def
        word_le_nat_alt word_less_nat_alt)
  have d: "capacity PTRDIFF_MAX 4 3 = None"
    using capacity_exact_or_rounded_up [OF s m, of 3] not_power_of_two_3 by blast
  have e: "\<exists>k<31. (128 :: 64 word) = 2 ^ k \<and> unat (100 :: 64 word) \<le> 2 ^ k
         \<and> (\<forall>j. unat (100 :: 64 word) \<le> 2 ^ j \<longrightarrow> k \<le> j)"
    using capacity_exact_or_rounded_up [OF s m, of 100] b by blast
  from s m a not_power_of_two_3 d b e c show ?thesis by (intro conjI)
qed

text \<open>
  C8. \<^verbatim>\<open>ceil_to_power_of_two\<close> at \<open>2 ^ 30 + 1\<close>: the smallest power of two not below
  the argument is \<open>2 ^ 31 = 2147483648\<close>, and it is representable. The function
  returns \<open>2 ^ 64 - 2 ^ 31\<close>, which is not a power of two: the 32-bit shift
  \<^verbatim>\<open>1 << 31\<close> is the negative \<^verbatim>\<open>INT_MIN\<close>, and its conversion to \<^verbatim>\<open>std::size_t\<close> sets
  the upper 33 bits.
\<close>

theorem ceil_to_power_of_two_above_2_30:
  "ceil_to_power_of_two 1073741825 0 = Some 18446744071562067968
   \<and> \<not> is_power_of_two (18446744071562067968 :: 64 word)"
  by (simp add: ceil_to_power_of_two.simps MAX_POWER_eq shl_int_def is_power_of_two_def
      word_le_nat_alt word_less_nat_alt)

text \<open>
  C10, as stated, at the capacity \<open>2 ^ 31\<close>: the capacity is a power of two that does
  not exceed \<open>2 ^ 31\<close>, but it does not fit the \<^verbatim>\<open>int\<close> template parameter, so
  \<^verbatim>\<open>index_from_sequence\<close> has no instantiation and no result.
\<close>

theorem index_from_sequence_capacity_2_31:
  "is_power_of_two (2147483648 :: 64 word) \<and> (2147483648 :: 64 word) \<le> 2 ^ 31
   \<and> index_from_sequence 2147483648 5 \<noteq> Some (nat (5 mod 2147483648))"
  by (simp add: is_power_of_two_def index_from_sequence_def)

text \<open>
  C10, amended. For every power-of-two capacity up to \<open>2 ^ 30\<close> (the powers of two that
  an \<^verbatim>\<open>int\<close> holds) and every non-negative 64-bit sequence \<open>s\<close>,
  \<^verbatim>\<open>index_from_sequence(s)\<close> is \<open>s mod CAPACITY\<close>, although the sequence is first cut
  down to its low 32 bits.
\<close>

theorem index_from_sequence_eq_mod:
  assumes "is_power_of_two CAPACITY" and "CAPACITY \<le> 2 ^ 30"
    and "0 \<le> s" and "s < 2 ^ 63"
  shows "index_from_sequence CAPACITY s = Some (nat (s mod uint CAPACITY))"
proof -
  from assms(1) obtain k where k: "k < 64" "CAPACITY = 2 ^ k"
    by (auto simp: is_power_of_two_iff)
  have "k < 31"
  proof (rule ccontr)
    assume "\<not> k < 31"
    then have "31 \<le> k" by simp
    then have "(2::nat) ^ 31 \<le> 2 ^ k" by (intro power_increasing) auto
    moreover have "unat CAPACITY \<le> unat (2 ^ 30 :: 64 word)"
      using assms(2) by (simp add: word_le_nat_alt)
    ultimately show False using k by (simp add: unat_two_power)
  qed
  moreover have "uint CAPACITY = 2 ^ k"
    using k by (simp add: uint_nat unat_two_power)
  ultimately show ?thesis using k index_from_sequence_exp [of k s] by simp
qed

theorem index_from_sequence_eq_mod_witness:
  "is_power_of_two (16 :: 64 word) \<and> (16 :: 64 word) \<le> 2 ^ 30
   \<and> (0::int) \<le> 4294967317 \<and> (4294967317::int) < 2 ^ 63
   \<and> index_from_sequence 16 4294967317 = Some 5"
proof -
  have a: "is_power_of_two (16 :: 64 word)" by (simp add: is_power_of_two_def)
  have b: "(16 :: 64 word) \<le> 2 ^ 30" by simp
  have c: "(0::int) \<le> 4294967317" by simp
  have d: "(4294967317::int) < 2 ^ 63" by simp
  from index_from_sequence_eq_mod [OF a b c d] a b c d show ?thesis by simp
qed

section \<open>Arithmetic of sequences and slots\<close>

lemma wrap64_id: "- (2 ^ 63) \<le> x \<Longrightarrow> x < 2 ^ 63 \<Longrightarrow> wrap64 x = x"
  unfolding wrap64_def
  by (simp add: signed_of_int signed_take_bit_int_eq_self)

lemma valid_capacity_exp:
  assumes "valid_capacity CAPACITY"
  obtains k where "k < 31" "CAPACITY = 2 ^ k"
proof -
  from assms obtain k where k: "k < 64" "CAPACITY = 2 ^ k"
    by (auto simp: valid_capacity_def static_asserts_def is_power_of_two_iff)
  have "k < 31"
  proof (rule ccontr)
    assume "\<not> k < 31"
    then have "31 \<le> k" by simp
    then have "(2::nat) ^ 31 \<le> 2 ^ k" by (intro power_increasing) auto
    moreover have "unat CAPACITY \<le> unat (0x7FFFFFFF :: 64 word)"
      using assms by (simp add: valid_capacity_def word_le_nat_alt)
    ultimately show False using k by (simp add: unat_two_power)
  qed
  with k that show ?thesis by blast
qed

lemma valid_capacity_facts:
  assumes "valid_capacity CAPACITY"
  shows "0 < unat CAPACITY" and "int (unat CAPACITY) \<le> 2 ^ 30"
    and "sint CAPACITY = int (unat CAPACITY)"
    and "index_from_sequence CAPACITY s = Some (nat (s mod int (unat CAPACITY)))"
proof -
  from assms obtain k where k: "k < 31" "CAPACITY = 2 ^ k" by (rule valid_capacity_exp)
  then have u: "unat CAPACITY = 2 ^ k" by (simp add: unat_two_power)
  show "0 < unat CAPACITY" using u by simp
  have "(2::int) ^ k \<le> 2 ^ 30" using k by (intro power_increasing) auto
  then show le: "int (unat CAPACITY) \<le> 2 ^ 30" using u by simp
  have "uint CAPACITY < 2 ^ 63" using le by simp
  moreover have "- (2 ^ 63) \<le> uint CAPACITY"
    by (rule order_trans [OF _ uint_ge_0]) simp
  ultimately have "sint CAPACITY = uint CAPACITY"
    by (simp add: sint_uint signed_take_bit_int_eq_self_iff)
  then show "sint CAPACITY = int (unat CAPACITY)" by simp
  show "index_from_sequence CAPACITY s = Some (nat (s mod int (unat CAPACITY)))"
    using index_from_sequence_exp [of k s] k u by simp
qed

lemma mod_window:
  fixes a b c N :: int
  assumes "c < a" "a \<le> c + N" "c < b" "b \<le> c + N" "a mod N = b mod N"
  shows "a = b"
  by (smt (verit, best) assms(1,2,3,4,5) mod_diff_cong mod_pos_pos_trivial)

section \<open>Basic facts about the steps\<close>

lemma set_writer_sel [simp]:
  "buffer (set_writer w x q) = buffer q"
  "slot_sequences (set_writer w x q) = slot_sequences q"
  "next_sequence (set_writer w x q) = next_sequence q"
  "readers (set_writer w x q) = readers q"
  "writers (set_writer w x q) = (writers q)[w := x]"
  by (simp_all add: set_writer_def)

lemma set_reader_sel [simp]:
  "buffer (set_reader r x q) = buffer q"
  "slot_sequences (set_reader r x q) = slot_sequences q"
  "next_sequence (set_reader r x q) = next_sequence q"
  "readers (set_reader r x q) = (readers q)[r := x]"
  "writers (set_reader r x q) = writers q"
  by (simp_all add: set_reader_def)

lemma committing_set_reader [simp]: "committing (set_reader r x q) = committing q"
  by (simp add: committing_def)

lemma committing_same:
  assumes "w < length (writers q)" "wpc (writers q ! w) \<noteq> W_commit" "wpc x \<noteq> W_commit"
  shows "committing (set_writer w x q) = committing q"
proof -
  have "\<And>v. v < length (writers q) \<Longrightarrow>
      (wpc ((writers q)[w := x] ! v) = W_commit) = (wpc (writers q ! v) = W_commit)"
    "\<And>v. v < length (writers q) \<Longrightarrow> wpc (writers q ! v) = W_commit \<Longrightarrow>
      write_index ((writers q)[w := x] ! v) = write_index (writers q ! v)"
    using assms by (auto simp: nth_list_update)
  then show ?thesis
    unfolding committing_def by (auto; metis)
qed

lemma committing_fields [simp]:
  "committing (q\<lparr>buffer := b\<rparr>) = committing q"
  "committing (q\<lparr>slot_sequences := s\<rparr>) = committing q"
  "committing (q\<lparr>next_sequence := n\<rparr>) = committing q"
  by (simp_all add: committing_def)

lemma in_flight_set_reader [simp]: "in_flight (set_reader r x q) = in_flight q"
  by (simp add: in_flight_def)

lemma in_flight_fields [simp]:
  "in_flight (q\<lparr>buffer := b\<rparr>) = in_flight q"
  "in_flight (q\<lparr>slot_sequences := s\<rparr>) = in_flight q"
  "in_flight (q\<lparr>next_sequence := n\<rparr>) = in_flight q"
  by (simp_all add: in_flight_def)

lemma in_flight_same:
  assumes "w < length (writers q)" "wpc (writers q ! w) \<noteq> W_idle" "wpc x \<noteq> W_idle"
    "claimed_sequence x = claimed_sequence (writers q ! w)"
  shows "in_flight (set_writer w x q) = in_flight q"
proof -
  have "\<And>v. v < length (writers q) \<Longrightarrow>
      (wpc ((writers q)[w := x] ! v) \<noteq> W_idle) = (wpc (writers q ! v) \<noteq> W_idle)"
    "\<And>v. v < length (writers q) \<Longrightarrow>
      claimed_sequence ((writers q)[w := x] ! v) = claimed_sequence (writers q ! v)"
    using assms by (auto simp: nth_list_update)
  then show ?thesis
    unfolding in_flight_def by (auto; metis)
qed

lemma nat_mod_eq:
  fixes a b :: int
  assumes "0 < N" "nat (a mod int N) = nat (b mod int N)"
  shows "a mod int N = b mod int N"
proof -
  have "0 \<le> a mod int N" "0 \<le> b mod int N" using assms(1) by simp_all
  with assms(2) show ?thesis by linarith
qed

lemma reader_writer_slots_differ:
  assumes "inv_shape N q" "inv_reader N q" "inv_cache q" "inv_granted N q" "inv_consumed q"
    and r: "r < length (readers q)" and w: "w < length (writers q)"
    and wpc: "wpc (writers q ! w) = W_store \<or> wpc (writers q ! w) = W_commit"
    and rpc: "rpc (readers q ! r) = R_copy \<or> rpc (readers q ! r) = R_update"
  shows "write_index (writers q ! w) \<noteq> read_index (readers q ! r)"
proof
  let ?W = "writers q ! w" and ?R = "readers q ! r"
  assume eq: "write_index ?W = read_index ?R"
  have N: "0 < N" using assms(1) by (simp add: inv_shape_def)
  have nx: "next_read_sequence ?R = consumer_sequence ?R + 1"
    and ri: "read_index ?R = nat (next_read_sequence ?R mod int N)"
    using assms(2) r rpc by (auto simp: inv_reader_def)
  have wi: "write_index ?W = nat (claimed_sequence ?W mod int N)"
    and lo: "claimed_sequence ?W - int N \<le> cached_min_consumer_sequence ?W"
    using assms(4) w wpc by (auto simp: inv_granted_def)
  have ca: "cached_min_consumer_sequence ?W \<le> consumer_sequence ?R"
    using assms(3) r w by (auto simp: inv_cache_def)
  have act: "wpc ?W \<noteq> W_idle" using wpc by auto
  have gt: "consumer_sequence ?R < claimed_sequence ?W"
    and ne: "next_read_sequence ?R \<noteq> claimed_sequence ?W"
    using assms(5) r w act rpc by (auto simp: inv_consumed_def)
  from eq have "nat (claimed_sequence ?W mod int N) = nat (next_read_sequence ?R mod int N)"
    unfolding wi ri .
  with N have "claimed_sequence ?W mod int N = next_read_sequence ?R mod int N"
    by (rule nat_mod_eq)
  moreover have "claimed_sequence ?W \<le> consumer_sequence ?R + int N"
    using lo ca by linarith
  moreover have "consumer_sequence ?R < next_read_sequence ?R"
    "next_read_sequence ?R \<le> consumer_sequence ?R + int N"
    using nx N by linarith+
  ultimately have "claimed_sequence ?W = next_read_sequence ?R"
    using gt by (auto intro: mod_window [of "consumer_sequence ?R" _ "int N"])
  with ne show False by simp
qed

lemma writer_slots_differ:
  assumes "inv_shape N q" "inv_cache q" "inv_granted N q" "inv_consumed q" "inv_distinct q"
    and rs: "readers q \<noteq> []"
    and w: "w < length (writers q)" and w': "w' < length (writers q)" and neq: "w \<noteq> w'"
    and wpc: "wpc (writers q ! w) = W_store \<or> wpc (writers q ! w) = W_commit"
    and wpc': "wpc (writers q ! w') = W_store \<or> wpc (writers q ! w') = W_commit"
  shows "write_index (writers q ! w) \<noteq> write_index (writers q ! w')"
proof
  let ?W = "writers q ! w" and ?W' = "writers q ! w'" and ?R = "readers q ! 0"
  assume eq: "write_index ?W = write_index ?W'"
  have r: "0 < length (readers q)" using rs by simp
  have N: "0 < N" using assms(1) by (simp add: inv_shape_def)
  have wi: "write_index ?W = nat (claimed_sequence ?W mod int N)"
    and lo: "claimed_sequence ?W - int N \<le> cached_min_consumer_sequence ?W"
    using assms(3) w wpc by (auto simp: inv_granted_def)
  have ca: "cached_min_consumer_sequence ?W \<le> consumer_sequence ?R"
    using assms(2) r w by (auto simp: inv_cache_def)
  have wi': "write_index ?W' = nat (claimed_sequence ?W' mod int N)"
    and lo': "claimed_sequence ?W' - int N \<le> cached_min_consumer_sequence ?W'"
    using assms(3) w' wpc' by (auto simp: inv_granted_def)
  have ca': "cached_min_consumer_sequence ?W' \<le> consumer_sequence ?R"
    using assms(2) r w' by (auto simp: inv_cache_def)
  have act: "wpc ?W \<noteq> W_idle" "wpc ?W' \<noteq> W_idle" using wpc wpc' by auto
  have gt: "consumer_sequence ?R < claimed_sequence ?W"
    "consumer_sequence ?R < claimed_sequence ?W'"
    using assms(4) r w w' act by (auto simp: inv_consumed_def)
  from eq have "nat (claimed_sequence ?W mod int N) = nat (claimed_sequence ?W' mod int N)"
    unfolding wi wi' .
  with N have "claimed_sequence ?W mod int N = claimed_sequence ?W' mod int N"
    by (rule nat_mod_eq)
  moreover have "claimed_sequence ?W \<le> consumer_sequence ?R + int N"
    "claimed_sequence ?W' \<le> consumer_sequence ?R + int N"
    using lo ca lo' ca' by linarith+
  ultimately have "claimed_sequence ?W = claimed_sequence ?W'"
    using gt by (auto intro: mod_window [of "consumer_sequence ?R" _ "int N"])
  moreover have "claimed_sequence ?W \<noteq> claimed_sequence ?W'"
    using assms(5) w w' neq act by (auto simp: inv_distinct_def)
  ultimately show False by simp
qed

lemma granted_slot_consumed:
  assumes "inv_shape N q" "inv_reader N q" "inv_slots N q" "inv_cache q" "inv_granted N q"
    "inv_published N q" "inv_consumed q" "inv_backpressure N q"
    and w: "w < length (writers q)"
    and wpc: "wpc (writers q ! w) = W_store \<or> wpc (writers q ! w) = W_commit"
    and r: "r < length (readers q)"
  shows "slot_sequences q ! write_index (writers q ! w) \<le> consumer_sequence (readers q ! r)"
proof (rule ccontr)
  let ?W = "writers q ! w"
  let ?s = "slot_sequences q ! write_index ?W" and ?c = "consumer_sequence (readers q ! r)"
  assume "\<not> ?s \<le> ?c"
  then have gt: "?c < ?s" by simp
  have N: "0 < N" using assms(1) by (simp add: inv_shape_def)
  have wi: "write_index ?W = nat (claimed_sequence ?W mod int N)" "write_index ?W < N"
    and lo: "claimed_sequence ?W - int N \<le> cached_min_consumer_sequence ?W"
    using assms(5) w wpc by (auto simp: inv_granted_def)
  have c: "- 1 \<le> ?c" using assms(2) r by (auto simp: inv_reader_def)
  with gt have "?s \<noteq> - 1" by linarith
  then have md: "nat (?s mod int N) = write_index ?W"
    using assms(3) wi(2) by (auto simp: inv_slots_def)
  have "?s - int N \<le> ?c"
    using assms(8) wi(2) r unfolding inv_backpressure_def by blast
  then have hi: "?s \<le> ?c + int N" by linarith
  have ca: "cached_min_consumer_sequence ?W \<le> ?c"
    using assms(4) w r by (auto simp: inv_cache_def)
  have act: "wpc ?W \<noteq> W_idle" using wpc by auto
  have cl: "?c < claimed_sequence ?W"
    using assms(7) r w act by (auto simp: inv_consumed_def)
  have "nat (?s mod int N) = nat (claimed_sequence ?W mod int N)"
    using md wi(1) by simp
  with N have "?s mod int N = claimed_sequence ?W mod int N" by (rule nat_mod_eq)
  moreover have "claimed_sequence ?W \<le> ?c + int N" using lo ca by linarith
  ultimately have "?s = claimed_sequence ?W"
    using gt hi cl by (auto intro: mod_window [of ?c _ "int N"])
  moreover have "?s \<noteq> claimed_sequence ?W"
    using assms(6) wi(2) w act by (auto simp: inv_published_def)
  ultimately show False by simp
qed

section \<open>Every step preserves the invariants\<close>

subsection \<open>Claiming a sequence\<close>

lemma fetch_add_cases:
  assumes "fetch_add w v q = Some q'" "inv_next hist q" "int (length hist) + 1 < 2 ^ 63"
  obtains "w < length (writers q)" "wpc (writers q ! w) = W_idle"
    "next_sequence q = int (length hist)"
    "q' = set_writer w
            ((writers q ! w)\<lparr>wpc := W_wait, wvalue := v, claimed_sequence := next_sequence q\<rparr>)
            (q\<lparr>next_sequence := next_sequence q + 1\<rparr>)"
proof -
  have n: "next_sequence q = int (length hist)" using assms(2) by (simp add: inv_next_def)
  have "wrap64 (next_sequence q + 1) = next_sequence q + 1"
    unfolding n using assms(3) by (intro wrap64_id; simp)
  with assms(1) n that show ?thesis
    by (auto simp: fetch_add_def split: if_splits)
qed

lemma fetch_shape:
  assumes "fetch_add w v q = Some q'" "int (length hist) + 1 < 2 ^ 63" "inv_shape N q" "inv_next hist q"
  shows "inv_shape N q'"
proof -
  have h: "inv_next hist q" using assms by simp
  from assms(1) h assms(2) show ?thesis
  proof (cases rule: fetch_add_cases)
    case 1
    show ?thesis
      using assms(3-) 1(1,2,3) unfolding 1(4)
      by (auto simp: inv_shape_def  nth_list_update nth_append)
  qed
qed

lemma fetch_next:
  assumes "fetch_add w v q = Some q'" "int (length hist) + 1 < 2 ^ 63" "inv_next hist q"
  shows "inv_next (hist @ [v]) q'"
proof -
  have h: "inv_next hist q" using assms by simp
  from assms(1) h assms(2) show ?thesis
  proof (cases rule: fetch_add_cases)
    case 1
    show ?thesis
      using assms(3-) 1(1,2,3) unfolding 1(4)
      by (auto simp: inv_next_def  nth_list_update nth_append)
  qed
qed

lemma fetch_reader:
  assumes "fetch_add w v q = Some q'" "int (length hist) + 1 < 2 ^ 63" "inv_reader N q" "inv_next hist q"
  shows "inv_reader N q'"
proof -
  have h: "inv_next hist q" using assms by simp
  from assms(1) h assms(2) show ?thesis
  proof (cases rule: fetch_add_cases)
    case 1
    show ?thesis
      using assms(3-) 1(1,2,3) unfolding 1(4)
      by (auto simp: inv_reader_def  nth_list_update nth_append)
  qed
qed

lemma fetch_slots:
  assumes "fetch_add w v q = Some q'" "int (length hist) + 1 < 2 ^ 63" "inv_slots N q" "inv_next hist q"
  shows "inv_slots N q'"
proof -
  have h: "inv_next hist q" using assms by simp
  from assms(1) h assms(2) show ?thesis
  proof (cases rule: fetch_add_cases)
    case 1
    show ?thesis
      using assms(3-) 1(1,2,3) unfolding 1(4)
      by (auto simp: inv_slots_def  nth_list_update nth_append; (smt (verit)))
  qed
qed

lemma fetch_cache:
  assumes "fetch_add w v q = Some q'" "int (length hist) + 1 < 2 ^ 63" "inv_cache q" "inv_next hist q"
  shows "inv_cache q'"
proof -
  have h: "inv_next hist q" using assms by simp
  from assms(1) h assms(2) show ?thesis
  proof (cases rule: fetch_add_cases)
    case 1
    show ?thesis
      using assms(3-) 1(1,2,3) unfolding 1(4)
      by (auto simp: inv_cache_def  nth_list_update nth_append)
  qed
qed

lemma fetch_claim:
  assumes "fetch_add w v q = Some q'" "int (length hist) + 1 < 2 ^ 63" "inv_claim hist q" "inv_next hist q"
  shows "inv_claim (hist @ [v]) q'"
proof -
  have h: "inv_next hist q" using assms by simp
  from assms(1) h assms(2) show ?thesis
  proof (cases rule: fetch_add_cases)
    case 1
    show ?thesis
      using assms(3-) 1(1,2,3) unfolding 1(4)
      by (auto simp: inv_claim_def  nth_list_update nth_append; (smt (verit)))
  qed
qed

lemma fetch_granted:
  assumes "fetch_add w v q = Some q'" "int (length hist) + 1 < 2 ^ 63" "inv_granted N q" "inv_next hist q"
  shows "inv_granted N q'"
proof -
  have h: "inv_next hist q" using assms by simp
  from assms(1) h assms(2) show ?thesis
  proof (cases rule: fetch_add_cases)
    case 1
    show ?thesis
      using assms(3-) 1(1,2,3) unfolding 1(4)
      by (auto simp: inv_granted_def  nth_list_update nth_append)
  qed
qed

lemma fetch_load:
  assumes "fetch_add w v q = Some q'" "int (length hist) + 1 < 2 ^ 63" "inv_load q" "inv_next hist q"
  shows "inv_load q'"
proof -
  have h: "inv_next hist q" using assms by simp
  from assms(1) h assms(2) show ?thesis
  proof (cases rule: fetch_add_cases)
    case 1
    show ?thesis
      using assms(3-) 1(1,2,3) unfolding 1(4)
      by (auto simp: inv_load_def  nth_list_update nth_append)
  qed
qed

lemma fetch_distinct:
  assumes "fetch_add w v q = Some q'" "int (length hist) + 1 < 2 ^ 63" "inv_distinct q" "inv_claim hist q" "inv_next hist q"
  shows "inv_distinct q'"
proof -
  have h: "inv_next hist q" using assms by simp
  from assms(1) h assms(2) show ?thesis
  proof (cases rule: fetch_add_cases)
    case 1
    show ?thesis
      using assms(3-) 1(1,2,3) unfolding 1(4)
      by (auto simp: inv_distinct_def inv_claim_def  nth_list_update nth_append; (smt (verit)))
  qed
qed

lemma fetch_published:
  assumes "fetch_add w v q = Some q'" "int (length hist) + 1 < 2 ^ 63" "inv_published N q" "inv_slots N q" "inv_next hist q"
  shows "inv_published N q'"
proof -
  have h: "inv_next hist q" using assms by simp
  from assms(1) h assms(2) show ?thesis
  proof (cases rule: fetch_add_cases)
    case 1
    show ?thesis
      using assms(3-) 1(1,2,3) unfolding 1(4)
      by (auto simp: inv_published_def inv_slots_def  nth_list_update nth_append; (smt (verit)))
  qed
qed

lemma fetch_consumed:
  assumes "fetch_add w v q = Some q'" "int (length hist) + 1 < 2 ^ 63" "inv_consumed q" "inv_reader N q" "inv_matched q" "inv_next hist q"
  shows "inv_consumed q'"
proof -
  have h: "inv_next hist q" using assms by simp
  from assms(1) h assms(2) show ?thesis
  proof (cases rule: fetch_add_cases)
    case 1
    show ?thesis
      using assms(3-) 1(1,2,3) unfolding 1(4)
      by (auto simp: inv_consumed_def inv_reader_def inv_matched_def  nth_list_update nth_append; (smt (verit)))
  qed
qed

lemma fetch_matched:
  assumes "fetch_add w v q = Some q'" "int (length hist) + 1 < 2 ^ 63" "inv_matched q" "inv_next hist q"
  shows "inv_matched q'"
proof -
  have h: "inv_next hist q" using assms by simp
  from assms(1) h assms(2) show ?thesis
  proof (cases rule: fetch_add_cases)
    case 1
    show ?thesis
      using assms(3-) 1(1,2,3) unfolding 1(4)
      by (auto simp: inv_matched_def  nth_list_update nth_append; (smt (verit)))
  qed
qed

lemma fetch_payload:
  assumes "fetch_add w v q = Some q'" "int (length hist) + 1 < 2 ^ 63" "inv_payload N hist q" "inv_slots N q" "inv_next hist q"
  shows "inv_payload N (hist @ [v]) q'"
proof -
  have h: "inv_next hist q" using assms by simp
  from assms(1) h assms(2) show ?thesis
  proof (cases rule: fetch_add_cases)
    case 1
    show ?thesis
      using assms(3-) 1(1,2,3) unfolding 1(4)
      by (auto simp: inv_payload_def inv_slots_def committing_same nth_list_update nth_append; (smt (verit)))
  qed
qed

lemma fetch_pending:
  assumes "fetch_add w v q = Some q'" "int (length hist) + 1 < 2 ^ 63" "inv_pending q" "inv_next hist q"
  shows "inv_pending q'"
proof -
  have h: "inv_next hist q" using assms by simp
  from assms(1) h assms(2) show ?thesis
  proof (cases rule: fetch_add_cases)
    case 1
    show ?thesis
      using assms(3-) 1(1,2,3) unfolding 1(4)
      by (auto simp: inv_pending_def  nth_list_update nth_append)
  qed
qed

lemma fetch_backpressure:
  assumes "fetch_add w v q = Some q'" "int (length hist) + 1 < 2 ^ 63" "inv_backpressure N q" "inv_next hist q"
  shows "inv_backpressure N q'"
proof -
  have h: "inv_next hist q" using assms by simp
  from assms(1) h assms(2) show ?thesis
  proof (cases rule: fetch_add_cases)
    case 1
    show ?thesis
      using assms(3-) 1(1,2,3) unfolding 1(4)
      by (auto simp: inv_backpressure_def  nth_list_update nth_append)
  qed
qed


lemma fetch_available:
  assumes "fetch_add w v q = Some q'" "int (length hist) + 1 < 2 ^ 63"
    "inv_available N q" "inv_next hist q"
  shows "inv_available N q'"
  using assms(1,4,2)
proof (cases rule: fetch_add_cases)
  case 1
  let ?x = "(writers q ! w)\<lparr>wpc := W_wait, wvalue := v, claimed_sequence := next_sequence q\<rparr>"
  have sub: "insert (next_sequence q) (in_flight q) \<subseteq> in_flight q'"
  proof
    fix s assume "s \<in> insert (next_sequence q) (in_flight q)"
    then consider "s = next_sequence q" | "s \<in> in_flight q" by auto
    then show "s \<in> in_flight q'"
    proof cases
      case 1
      have "w < length (writers q')" "wpc (writers q' ! w) \<noteq> W_idle"
        "s = claimed_sequence (writers q' ! w)"
        using \<open>w < length (writers q)\<close> 1 unfolding \<open>q' = _\<close> by simp_all
      then show ?thesis unfolding in_flight_def by blast
    next
      case 2
      then obtain u where u: "u < length (writers q)" "wpc (writers q ! u) \<noteq> W_idle"
        "s = claimed_sequence (writers q ! u)"
        by (auto simp: in_flight_def)
      with \<open>wpc (writers q ! w) = W_idle\<close> have "u \<noteq> w" by auto
      with u have "u < length (writers q')" "wpc (writers q' ! u) \<noteq> W_idle"
        "s = claimed_sequence (writers q' ! u)"
        unfolding \<open>q' = _\<close> by simp_all
      then show ?thesis unfolding in_flight_def by blast
    qed
  qed
  show ?thesis
    unfolding inv_available_def
  proof (intro allI impI)
    fix s
    assume rs: "readers q' \<noteq> []"
      and pre: "0 \<le> s \<and> s < next_sequence q' \<and> s \<notin> in_flight q'"
    from pre sub have "s \<noteq> next_sequence q" "s \<notin> in_flight q" by auto
    moreover from pre have "s < next_sequence q + 1" unfolding 1(4) by simp
    ultimately have "s \<le> slot_sequences q ! nat (s mod int N)"
      using assms(3) rs pre unfolding 1(4) by (auto simp: inv_available_def)
    then show "s \<le> slot_sequences q' ! nat (s mod int N)" unfolding 1(4) by simp
  qed
qed

lemma fetch_result:
  assumes "fetch_add w v q = Some q'" "int (length hist) + 1 < 2 ^ 63"
    "inv_result hist q" "inv_reader N q" "inv_matched q" "inv_next hist q"
  shows "inv_result (hist @ [v]) q'"
  using assms(1,6,2)
proof (cases rule: fetch_add_cases)
  case 1
  have key: "(hist @ [v]) ! nat k = hist ! nat k" if "0 \<le> k" "k < next_sequence q" for k
  proof -
    from that 1(3) have "nat k < length hist" by linarith
    then show ?thesis by (simp add: nth_append)
  qed
  show ?thesis
    unfolding inv_result_def
  proof (intro allI impI conjI)
    fix r assume r: "r < length (readers q')" and pc: "rpc (readers q' ! r) = R_update"
    have rq: "r < length (readers q)" "rpc (readers q ! r) = R_update"
      using r pc unfolding 1(4) by simp_all
    have "0 \<le> next_read_sequence (readers q ! r)"
      using assms(4) rq by (auto simp: inv_reader_def)
    moreover have "next_read_sequence (readers q ! r) < next_sequence q"
      using assms(5) rq by (auto simp: inv_matched_def)
    moreover have "rvalue (readers q ! r) = hist ! nat (next_read_sequence (readers q ! r))"
      using assms(3) rq by (auto simp: inv_result_def)
    ultimately show "rvalue (readers q' ! r) = (hist @ [v]) ! nat (next_read_sequence (readers q' ! r))"
      unfolding 1(4) by (simp add: key)
  next
    fix r assume r: "r < length (readers q')"
      and pc: "rpc (readers q' ! r) = R_idle \<and> 0 \<le> consumer_sequence (readers q' ! r)"
    have rq: "r < length (readers q)" "rpc (readers q ! r) = R_idle"
      "0 \<le> consumer_sequence (readers q ! r)"
      using r pc unfolding 1(4) by simp_all
    have "consumer_sequence (readers q ! r) < next_sequence q"
      using assms(4) rq by (auto simp: inv_reader_def)
    moreover have "rvalue (readers q ! r) = hist ! nat (consumer_sequence (readers q ! r))"
      using assms(3) rq by (auto simp: inv_result_def)
    ultimately show "rvalue (readers q' ! r) = (hist @ [v]) ! nat (consumer_sequence (readers q' ! r))"
      using rq(3) unfolding 1(4) by (simp add: key)
  qed
qed

subsection \<open>The test of wait\_for\_no\_wrap\<close>

lemma wait_shape:
  assumes "wait_for_no_wrap CAPACITY w q = Some q'" "inv_shape N q"
  shows "inv_shape N q'"
  using assms
  by (auto simp: inv_shape_def wait_for_no_wrap_def  nth_list_update split: if_splits option.splits)

lemma wait_next:
  assumes "wait_for_no_wrap CAPACITY w q = Some q'" "inv_next hist q"
  shows "inv_next hist q'"
  using assms
  by (auto simp: inv_next_def wait_for_no_wrap_def  nth_list_update split: if_splits option.splits)

lemma wait_reader:
  assumes "wait_for_no_wrap CAPACITY w q = Some q'" "inv_reader N q"
  shows "inv_reader N q'"
  using assms
  by (auto simp: inv_reader_def wait_for_no_wrap_def  nth_list_update split: if_splits option.splits)

lemma wait_slots:
  assumes "wait_for_no_wrap CAPACITY w q = Some q'" "inv_slots N q"
  shows "inv_slots N q'"
  using assms
  by (auto simp: inv_slots_def wait_for_no_wrap_def  nth_list_update split: if_splits option.splits)

lemma wait_cache:
  assumes "wait_for_no_wrap CAPACITY w q = Some q'" "inv_cache q"
  shows "inv_cache q'"
  using assms
  by (auto simp: inv_cache_def wait_for_no_wrap_def  nth_list_update split: if_splits option.splits)

lemma wait_claim:
  assumes "wait_for_no_wrap CAPACITY w q = Some q'" "inv_claim hist q"
  shows "inv_claim hist q'"
  using assms
  by (auto simp: inv_claim_def wait_for_no_wrap_def  nth_list_update split: if_splits option.splits)

lemma wait_load:
  assumes "wait_for_no_wrap CAPACITY w q = Some q'" "inv_load q"
  shows "inv_load q'"
  using assms
  by (auto simp: inv_load_def wait_for_no_wrap_def  nth_list_update split: if_splits option.splits)

lemma wait_distinct:
  assumes "wait_for_no_wrap CAPACITY w q = Some q'" "inv_distinct q"
  shows "inv_distinct q'"
  using assms
  by (auto simp: inv_distinct_def wait_for_no_wrap_def  nth_list_update split: if_splits option.splits)

lemma wait_published:
  assumes "wait_for_no_wrap CAPACITY w q = Some q'" "inv_published N q"
  shows "inv_published N q'"
  using assms
  by (auto simp: inv_published_def wait_for_no_wrap_def  nth_list_update split: if_splits option.splits)

lemma wait_consumed:
  assumes "wait_for_no_wrap CAPACITY w q = Some q'" "inv_consumed q"
  shows "inv_consumed q'"
  using assms
  by (auto simp: inv_consumed_def wait_for_no_wrap_def  nth_list_update split: if_splits option.splits)

lemma wait_matched:
  assumes "wait_for_no_wrap CAPACITY w q = Some q'" "inv_matched q"
  shows "inv_matched q'"
  using assms
  by (auto simp: inv_matched_def wait_for_no_wrap_def  nth_list_update split: if_splits option.splits)

lemma wait_payload:
  assumes "wait_for_no_wrap CAPACITY w q = Some q'" "inv_payload N hist q"
  shows "inv_payload N hist q'"
  using assms
  by (auto simp: inv_payload_def wait_for_no_wrap_def committing_same nth_list_update split: if_splits option.splits)

lemma wait_pending:
  assumes "wait_for_no_wrap CAPACITY w q = Some q'" "inv_pending q"
  shows "inv_pending q'"
  using assms
  by (auto simp: inv_pending_def wait_for_no_wrap_def  nth_list_update split: if_splits option.splits)

lemma wait_result:
  assumes "wait_for_no_wrap CAPACITY w q = Some q'" "inv_result hist q"
  shows "inv_result hist q'"
  using assms
  by (auto simp: inv_result_def wait_for_no_wrap_def  nth_list_update split: if_splits option.splits)

lemma wait_backpressure:
  assumes "wait_for_no_wrap CAPACITY w q = Some q'" "inv_backpressure N q"
  shows "inv_backpressure N q'"
  using assms
  by (auto simp: inv_backpressure_def wait_for_no_wrap_def  nth_list_update split: if_splits option.splits)

lemma wait_available:
  assumes "wait_for_no_wrap CAPACITY w q = Some q'" "inv_available N q"
  shows "inv_available N q'"
  using assms
  by (auto simp: inv_available_def wait_for_no_wrap_def in_flight_same nth_list_update split: if_splits option.splits)


lemma wait_granted:
  assumes "wait_for_no_wrap CAPACITY w q = Some q'" "inv_granted N q" "inv_claim hist q"
    "valid_capacity CAPACITY" "N = unat CAPACITY" "next_sequence q < 2 ^ 63"
  shows "inv_granted N q'"
proof -
  let ?W = "writers q ! w"
  from assms(1) have w: "w < length (writers q)" "wpc ?W = W_wait"
    by (auto simp: wait_for_no_wrap_def split: if_splits)
  have c: "0 \<le> claimed_sequence ?W" "claimed_sequence ?W < next_sequence q"
    using assms(3) w by (auto simp: inv_claim_def)
  have N: "0 < N" "int N \<le> 2 ^ 30" "sint CAPACITY = int N"
    using valid_capacity_facts(1-3) [OF assms(4)] assms(5) by simp_all
  have wp: "wrap64 (claimed_sequence ?W - sint CAPACITY) = claimed_sequence ?W - int N"
    unfolding N(3) using c N(2) assms(6) by (intro wrap64_id; simp)
  have ix: "index_from_sequence CAPACITY (claimed_sequence ?W)
      = Some (nat (claimed_sequence ?W mod int N))"
    using valid_capacity_facts(4) [OF assms(4)] assms(5) by simp
  have lt: "nat (claimed_sequence ?W mod int N) < N"
    using N(1) by (simp add: nat_less_iff)
  show ?thesis
    using assms(1,2) w lt unfolding wait_for_no_wrap_def wp ix
    by (auto simp: inv_granted_def nth_list_update split: if_splits)
qed

subsection \<open>Scanning the readers\<close>

lemma load_shape:
  assumes "load_consumer_sequence w q = Some q'" "inv_shape N q"
  shows "inv_shape N q'"
  using assms
  by (auto simp: inv_shape_def load_consumer_sequence_def  nth_list_update split: if_splits writer_pc.splits)

lemma load_next:
  assumes "load_consumer_sequence w q = Some q'" "inv_next hist q"
  shows "inv_next hist q'"
  using assms
  by (auto simp: inv_next_def load_consumer_sequence_def  nth_list_update split: if_splits writer_pc.splits)

lemma load_reader:
  assumes "load_consumer_sequence w q = Some q'" "inv_reader N q"
  shows "inv_reader N q'"
  using assms
  by (auto simp: inv_reader_def load_consumer_sequence_def  nth_list_update split: if_splits writer_pc.splits)

lemma load_slots:
  assumes "load_consumer_sequence w q = Some q'" "inv_slots N q"
  shows "inv_slots N q'"
  using assms
  by (auto simp: inv_slots_def load_consumer_sequence_def  nth_list_update split: if_splits writer_pc.splits)

lemma load_claim:
  assumes "load_consumer_sequence w q = Some q'" "inv_claim hist q"
  shows "inv_claim hist q'"
  using assms
  by (auto simp: inv_claim_def load_consumer_sequence_def  nth_list_update split: if_splits writer_pc.splits)

lemma load_granted:
  assumes "load_consumer_sequence w q = Some q'" "inv_granted N q"
  shows "inv_granted N q'"
  using assms
  by (auto simp: inv_granted_def load_consumer_sequence_def  nth_list_update split: if_splits writer_pc.splits)

lemma load_distinct:
  assumes "load_consumer_sequence w q = Some q'" "inv_distinct q"
  shows "inv_distinct q'"
  using assms
  by (auto simp: inv_distinct_def load_consumer_sequence_def  nth_list_update split: if_splits writer_pc.splits)

lemma load_published:
  assumes "load_consumer_sequence w q = Some q'" "inv_published N q"
  shows "inv_published N q'"
  using assms
  by (auto simp: inv_published_def load_consumer_sequence_def  nth_list_update split: if_splits writer_pc.splits)

lemma load_consumed:
  assumes "load_consumer_sequence w q = Some q'" "inv_consumed q"
  shows "inv_consumed q'"
  using assms
  by (auto simp: inv_consumed_def load_consumer_sequence_def  nth_list_update split: if_splits writer_pc.splits)

lemma load_matched:
  assumes "load_consumer_sequence w q = Some q'" "inv_matched q"
  shows "inv_matched q'"
  using assms
  by (auto simp: inv_matched_def load_consumer_sequence_def  nth_list_update split: if_splits writer_pc.splits)

lemma load_payload:
  assumes "load_consumer_sequence w q = Some q'" "inv_payload N hist q"
  shows "inv_payload N hist q'"
  using assms
  by (auto simp: inv_payload_def load_consumer_sequence_def committing_same nth_list_update split: if_splits writer_pc.splits)

lemma load_pending:
  assumes "load_consumer_sequence w q = Some q'" "inv_pending q"
  shows "inv_pending q'"
  using assms
  by (auto simp: inv_pending_def load_consumer_sequence_def  nth_list_update split: if_splits writer_pc.splits)

lemma load_result:
  assumes "load_consumer_sequence w q = Some q'" "inv_result hist q"
  shows "inv_result hist q'"
  using assms
  by (auto simp: inv_result_def load_consumer_sequence_def  nth_list_update split: if_splits writer_pc.splits)

lemma load_backpressure:
  assumes "load_consumer_sequence w q = Some q'" "inv_backpressure N q"
  shows "inv_backpressure N q'"
  using assms
  by (auto simp: inv_backpressure_def load_consumer_sequence_def  nth_list_update split: if_splits writer_pc.splits)

lemma load_available:
  assumes "load_consumer_sequence w q = Some q'" "inv_available N q"
  shows "inv_available N q'"
  using assms
  by (auto simp: inv_available_def load_consumer_sequence_def in_flight_same nth_list_update split: if_splits writer_pc.splits)


lemma load_consumer_sequence_cases:
  assumes "load_consumer_sequence w q = Some q'"
  obtains (more) j where "w < length (writers q)" "wpc (writers q ! w) = W_load j"
      "Suc j < length (readers q)"
      "q' = set_writer w ((writers q ! w)\<lparr>wpc := W_load (Suc j),
             min_sequence := min (min_sequence (writers q ! w))
                                 (consumer_sequence (readers q ! j))\<rparr>) q"
  | (last) j where "w < length (writers q)" "wpc (writers q ! w) = W_load j"
      "j < length (readers q)" "\<not> Suc j < length (readers q)"
      "q' = set_writer w ((writers q ! w)\<lparr>wpc := W_wait,
             cached_min_consumer_sequence := min (min_sequence (writers q ! w))
                                 (consumer_sequence (readers q ! j))\<rparr>) q"
  using assms by (auto simp: load_consumer_sequence_def split: if_splits writer_pc.splits)

lemma load_cache:
  assumes "load_consumer_sequence w q = Some q'" "inv_cache q" "inv_load q"
  shows "inv_cache q'"
  using assms(1)
proof (cases rule: load_consumer_sequence_cases)
  case (more j)
  with assms(2) show ?thesis by (auto simp: inv_cache_def nth_list_update)
next
  case (last j)
  let ?W = "writers q ! w"
  have m: "min_sequence ?W \<le> SEQUENCE_MAX"
    "\<forall>r<j. min_sequence ?W \<le> consumer_sequence (readers q ! r)"
    using assms(3) last(1,2) by (auto simp: inv_load_def)
  have "\<forall>r<length (readers q).
      min (min_sequence ?W) (consumer_sequence (readers q ! j)) \<le> consumer_sequence (readers q ! r)"
  proof (intro allI impI)
    fix r assume "r < length (readers q)"
    with last(3,4) have "r < j \<or> r = j" by linarith
    with m(2) show "min (min_sequence ?W) (consumer_sequence (readers q ! j))
        \<le> consumer_sequence (readers q ! r)" by auto
  qed
  with m(1) assms(2) last(1) show ?thesis
    unfolding last(5) by (auto simp: inv_cache_def nth_list_update)
qed

lemma load_load:
  assumes "load_consumer_sequence w q = Some q'" "inv_load q"
  shows "inv_load q'"
  using assms(1)
proof (cases rule: load_consumer_sequence_cases)
  case (more j)
  let ?W = "writers q ! w"
  have m: "min_sequence ?W \<le> SEQUENCE_MAX"
    "\<forall>r<j. min_sequence ?W \<le> consumer_sequence (readers q ! r)"
    using assms(2) more(1,2) by (auto simp: inv_load_def)
  have "\<forall>r<Suc j.
      min (min_sequence ?W) (consumer_sequence (readers q ! j)) \<le> consumer_sequence (readers q ! r)"
  proof (intro allI impI)
    fix r assume "r < Suc j"
    then have "r < j \<or> r = j" by linarith
    with m(2) show "min (min_sequence ?W) (consumer_sequence (readers q ! j))
        \<le> consumer_sequence (readers q ! r)" by auto
  qed
  with m(1) more(1,3) assms(2) show ?thesis
    unfolding more(4) by (auto simp: inv_load_def nth_list_update)
next
  case (last j)
  with assms(2) show ?thesis by (auto simp: inv_load_def nth_list_update)
qed

subsection \<open>Storing the payload\<close>

lemma store_shape:
  assumes "store_payload w q = Some q'" "inv_shape N q"
  shows "inv_shape N q'"
  using assms
  by (auto simp: inv_shape_def store_payload_def  nth_list_update split: if_splits)

lemma store_next:
  assumes "store_payload w q = Some q'" "inv_next hist q"
  shows "inv_next hist q'"
  using assms
  by (auto simp: inv_next_def store_payload_def  nth_list_update split: if_splits)

lemma store_reader:
  assumes "store_payload w q = Some q'" "inv_reader N q"
  shows "inv_reader N q'"
  using assms
  by (auto simp: inv_reader_def store_payload_def  nth_list_update split: if_splits)

lemma store_slots:
  assumes "store_payload w q = Some q'" "inv_slots N q"
  shows "inv_slots N q'"
  using assms
  by (auto simp: inv_slots_def store_payload_def  nth_list_update split: if_splits)

lemma store_cache:
  assumes "store_payload w q = Some q'" "inv_cache q"
  shows "inv_cache q'"
  using assms
  by (auto simp: inv_cache_def store_payload_def  nth_list_update split: if_splits)

lemma store_claim:
  assumes "store_payload w q = Some q'" "inv_claim hist q"
  shows "inv_claim hist q'"
  using assms
  by (auto simp: inv_claim_def store_payload_def  nth_list_update split: if_splits)

lemma store_granted:
  assumes "store_payload w q = Some q'" "inv_granted N q"
  shows "inv_granted N q'"
  using assms
  by (auto simp: inv_granted_def store_payload_def  nth_list_update split: if_splits)

lemma store_load:
  assumes "store_payload w q = Some q'" "inv_load q"
  shows "inv_load q'"
  using assms
  by (auto simp: inv_load_def store_payload_def  nth_list_update split: if_splits)

lemma store_distinct:
  assumes "store_payload w q = Some q'" "inv_distinct q"
  shows "inv_distinct q'"
  using assms
  by (auto simp: inv_distinct_def store_payload_def  nth_list_update split: if_splits)

lemma store_published:
  assumes "store_payload w q = Some q'" "inv_published N q"
  shows "inv_published N q'"
  using assms
  by (auto simp: inv_published_def store_payload_def  nth_list_update split: if_splits)

lemma store_consumed:
  assumes "store_payload w q = Some q'" "inv_consumed q"
  shows "inv_consumed q'"
  using assms
  by (auto simp: inv_consumed_def store_payload_def  nth_list_update split: if_splits)

lemma store_matched:
  assumes "store_payload w q = Some q'" "inv_matched q"
  shows "inv_matched q'"
  using assms
  by (auto simp: inv_matched_def store_payload_def  nth_list_update split: if_splits)

lemma store_result:
  assumes "store_payload w q = Some q'" "inv_result hist q"
  shows "inv_result hist q'"
  using assms
  by (auto simp: inv_result_def store_payload_def  nth_list_update split: if_splits)

lemma store_backpressure:
  assumes "store_payload w q = Some q'" "inv_backpressure N q"
  shows "inv_backpressure N q'"
  using assms
  by (auto simp: inv_backpressure_def store_payload_def  nth_list_update split: if_splits)

lemma store_available:
  assumes "store_payload w q = Some q'" "inv_available N q"
  shows "inv_available N q'"
  using assms
  by (auto simp: inv_available_def store_payload_def in_flight_same nth_list_update split: if_splits)


lemma store_payload_cases:
  assumes "store_payload w q = Some q'"
  obtains "w < length (writers q)" "wpc (writers q ! w) = W_store"
    "write_index (writers q ! w) < length (buffer q)"
    "q' = set_writer w ((writers q ! w)\<lparr>wpc := W_commit\<rparr>)
       (q\<lparr>buffer := (buffer q)[write_index (writers q ! w) := wvalue (writers q ! w)]\<rparr>)"
  using assms by (auto simp: store_payload_def split: if_splits)

lemma store_committing:
  assumes "store_payload w q = Some q'"
  shows "committing q' = insert (write_index (writers q ! w)) (committing q)"
  using assms
proof (cases rule: store_payload_cases)
  case 1
  let ?W = "writers q ! w"
  have wr: "writers q' = (writers q)[w := ?W\<lparr>wpc := W_commit\<rparr>]"
    unfolding 1(4) by simp
  show ?thesis
  proof (intro set_eqI iffI)
    fix i assume "i \<in> committing q'"
    then obtain v where v: "v < length (writers q)" "wpc (writers q' ! v) = W_commit"
      "i = write_index (writers q' ! v)"
      unfolding committing_def wr by auto
    show "i \<in> insert (write_index ?W) (committing q)"
    proof (cases "v = w")
      case True
      with v 1(1) wr show ?thesis by simp
    next
      case False
      with v wr have "wpc (writers q ! v) = W_commit" "i = write_index (writers q ! v)"
        by simp_all
      with v(1) have "i \<in> committing q" unfolding committing_def by blast
      then show ?thesis by simp
    qed
  next
    fix i assume "i \<in> insert (write_index ?W) (committing q)"
    then consider "i = write_index ?W" | "i \<in> committing q" by auto
    then show "i \<in> committing q'"
    proof cases
      case 1
      have "w < length (writers q')" "wpc (writers q' ! w) = W_commit"
        "i = write_index (writers q' ! w)"
        using \<open>w < length (writers q)\<close> 1 wr by simp_all
      then show ?thesis unfolding committing_def by blast
    next
      case 2
      then obtain v where v: "v < length (writers q)" "wpc (writers q ! v) = W_commit"
        "i = write_index (writers q ! v)"
        unfolding committing_def by auto
      with \<open>wpc ?W = W_store\<close> have "v \<noteq> w" by auto
      with v wr have "v < length (writers q')" "wpc (writers q' ! v) = W_commit"
        "i = write_index (writers q' ! v)" by simp_all
      then show ?thesis unfolding committing_def by blast
    qed
  qed
qed

lemma store_payload:
  assumes "store_payload w q = Some q'" "inv_payload N hist q"
  shows "inv_payload N hist q'"
  using assms(1)
proof (cases rule: store_payload_cases)
  case 1
  have cm: "committing q' = insert (write_index (writers q ! w)) (committing q)"
    using assms(1) by (rule store_committing)
  show ?thesis
    using assms(2) unfolding inv_payload_def cm unfolding 1(4)
    by (auto simp: nth_list_update)
qed

lemma store_pending:
  assumes "store_payload w q = Some q'" "inv_pending q"
    "inv_shape N q" "inv_cache q" "inv_granted N q" "inv_consumed q" "inv_distinct q"
  shows "inv_pending q'"
  using assms(1)
proof (cases rule: store_payload_cases)
  case 1
  let ?W = "writers q ! w"
  show ?thesis
    unfolding inv_pending_def
  proof (intro allI impI)
    fix v
    assume rs: "readers q' \<noteq> []" and v: "v < length (writers q')"
      and pc: "wpc (writers q' ! v) = W_commit"
    have rs': "readers q \<noteq> []" using rs unfolding 1(4) by simp
    show "buffer q' ! write_index (writers q' ! v) = wvalue (writers q' ! v)"
    proof (cases "v = w")
      case True
      with 1(1,3) show ?thesis unfolding 1(4) by simp
    next
      case False
      have vq: "v < length (writers q)" "wpc (writers q ! v) = W_commit"
        using v pc False unfolding 1(4) by simp_all
      have "write_index (writers q ! v) \<noteq> write_index ?W"
        using vq(2) 1(2)
        by (intro writer_slots_differ [OF assms(3-7) rs' vq(1) 1(1) False]) simp_all
      moreover have "buffer q ! write_index (writers q ! v) = wvalue (writers q ! v)"
        using assms(2) rs' vq by (auto simp: inv_pending_def)
      ultimately show ?thesis using False unfolding 1(4) by simp
    qed
  qed
qed

subsection \<open>Publishing the stamp\<close>

lemma commit_shape:
  assumes "commit_sequence w q = Some q'" "inv_shape N q"
  shows "inv_shape N q'"
  using assms
  by (auto simp: inv_shape_def commit_sequence_def  nth_list_update split: if_splits)

lemma commit_next:
  assumes "commit_sequence w q = Some q'" "inv_next hist q"
  shows "inv_next hist q'"
  using assms
  by (auto simp: inv_next_def commit_sequence_def  nth_list_update split: if_splits)

lemma commit_reader:
  assumes "commit_sequence w q = Some q'" "inv_reader N q"
  shows "inv_reader N q'"
  using assms
  by (auto simp: inv_reader_def commit_sequence_def  nth_list_update split: if_splits)

lemma commit_slots:
  assumes "commit_sequence w q = Some q'" "inv_slots N q" "inv_claim hist q" "inv_granted N q"
  shows "inv_slots N q'"
  using assms
  by (auto simp: inv_slots_def inv_claim_def inv_granted_def commit_sequence_def  nth_list_update split: if_splits)

lemma commit_cache:
  assumes "commit_sequence w q = Some q'" "inv_cache q"
  shows "inv_cache q'"
  using assms
  by (auto simp: inv_cache_def commit_sequence_def  nth_list_update split: if_splits)

lemma commit_claim:
  assumes "commit_sequence w q = Some q'" "inv_claim hist q"
  shows "inv_claim hist q'"
  using assms
  by (auto simp: inv_claim_def commit_sequence_def  nth_list_update split: if_splits)

lemma commit_granted:
  assumes "commit_sequence w q = Some q'" "inv_granted N q"
  shows "inv_granted N q'"
  using assms
  by (auto simp: inv_granted_def commit_sequence_def  nth_list_update split: if_splits)

lemma commit_load:
  assumes "commit_sequence w q = Some q'" "inv_load q"
  shows "inv_load q'"
  using assms
  by (auto simp: inv_load_def commit_sequence_def  nth_list_update split: if_splits)

lemma commit_distinct:
  assumes "commit_sequence w q = Some q'" "inv_distinct q"
  shows "inv_distinct q'"
  using assms
  by (auto simp: inv_distinct_def commit_sequence_def  nth_list_update split: if_splits)

lemma commit_published:
  assumes "commit_sequence w q = Some q'" "inv_published N q" "inv_distinct q"
  shows "inv_published N q'"
  using assms
  by (auto simp: inv_published_def inv_distinct_def commit_sequence_def  nth_list_update split: if_splits)

lemma commit_consumed:
  assumes "commit_sequence w q = Some q'" "inv_consumed q"
  shows "inv_consumed q'"
  using assms
  by (auto simp: inv_consumed_def commit_sequence_def  nth_list_update split: if_splits)

lemma commit_pending:
  assumes "commit_sequence w q = Some q'" "inv_pending q"
  shows "inv_pending q'"
  using assms
  by (auto simp: inv_pending_def commit_sequence_def  nth_list_update split: if_splits)

lemma commit_result:
  assumes "commit_sequence w q = Some q'" "inv_result hist q"
  shows "inv_result hist q'"
  using assms
  by (auto simp: inv_result_def commit_sequence_def  nth_list_update split: if_splits)

lemma commit_backpressure:
  assumes "commit_sequence w q = Some q'" "inv_backpressure N q" "inv_granted N q" "inv_cache q"
  shows "inv_backpressure N q'"
  using assms
  by (auto simp: inv_backpressure_def inv_granted_def inv_cache_def commit_sequence_def  nth_list_update split: if_splits; (smt (verit)))


lemma commit_available:
  assumes "commit_sequence w q = Some q'" "inv_available N q"
    "inv_shape N q" "inv_reader N q" "inv_slots N q" "inv_cache q" "inv_granted N q"
    "inv_published N q" "inv_consumed q" "inv_backpressure N q"
  shows "inv_available N q'"
  unfolding inv_available_def
proof (intro allI impI)
  fix s
  assume rs: "readers q' \<noteq> []"
    and pre: "0 \<le> s \<and> s < next_sequence q' \<and> s \<notin> in_flight q'"
  let ?W = "writers q ! w"
  from assms(1) have w: "w < length (writers q)" "wpc ?W = W_commit"
    and wi: "write_index ?W < length (slot_sequences q)"
    and rd: "readers q' = readers q" and nx: "next_sequence q' = next_sequence q"
    and wr: "writers q' = (writers q)[w := ?W\<lparr>wpc := W_idle\<rparr>]"
    and sl: "slot_sequences q' = (slot_sequences q)[write_index ?W := claimed_sequence ?W]"
    by (auto simp: commit_sequence_def split: if_splits)
  have N: "0 < N" using assms(3) by (simp add: inv_shape_def)
  have wm: "write_index ?W = nat (claimed_sequence ?W mod int N)"
    using assms(7) w by (auto simp: inv_granted_def)
  have r0: "0 < length (readers q)" using rs rd by simp
  have old: "s \<le> slot_sequences q ! nat (s mod int N)" if ne: "s \<noteq> claimed_sequence ?W"
  proof -
    have "s \<notin> in_flight q"
    proof
      assume "s \<in> in_flight q"
      then obtain v where v: "v < length (writers q)" "wpc (writers q ! v) \<noteq> W_idle"
        "s = claimed_sequence (writers q ! v)"
        by (auto simp: in_flight_def)
      with ne have "v \<noteq> w" by auto
      with v wr have "v < length (writers q')" "wpc (writers q' ! v) \<noteq> W_idle"
        "s = claimed_sequence (writers q' ! v)" by simp_all
      then have "s \<in> in_flight q'" unfolding in_flight_def by blast
      with pre show False by simp
    qed
    with assms(2) rs rd pre nx show ?thesis by (auto simp: inv_available_def)
  qed
  show "s \<le> slot_sequences q' ! nat (s mod int N)"
  proof (cases "s = claimed_sequence ?W")
    case True
    with wm wi sl show ?thesis by simp
  next
    case False
    show ?thesis
    proof (cases "nat (s mod int N) = write_index ?W")
      case True
      have "slot_sequences q ! write_index ?W \<le> consumer_sequence (readers q ! 0)"
        using w(2) by (intro granted_slot_consumed [OF assms(3-10) w(1) _ r0]) simp
      moreover have "consumer_sequence (readers q ! 0) < claimed_sequence ?W"
        using assms(9) r0 w by (auto simp: inv_consumed_def)
      ultimately have "s \<le> claimed_sequence ?W" using old [OF False] True by simp
      with True wi sl show ?thesis by simp
    next
      case False
      with old [OF \<open>s \<noteq> claimed_sequence ?W\<close>] sl show ?thesis by simp
    qed
  qed
qed

lemma commit_matched:
  assumes "commit_sequence w q = Some q'" "inv_matched q"
    "inv_shape N q" "inv_reader N q" "inv_cache q" "inv_granted N q" "inv_consumed q"
  shows "inv_matched q'"
  unfolding inv_matched_def
proof (intro allI impI)
  fix r assume r: "r < length (readers q')"
    and rpc: "rpc (readers q' ! r) = R_copy \<or> rpc (readers q' ! r) = R_update"
  from assms(1) have w: "w < length (writers q)" "wpc (writers q ! w) = W_commit"
    and rd: "readers q' = readers q" and nx: "next_sequence q' = next_sequence q"
    and sl: "slot_sequences q' = (slot_sequences q)[write_index (writers q ! w) := claimed_sequence (writers q ! w)]"
    by (auto simp: commit_sequence_def split: if_splits)
  have "write_index (writers q ! w) \<noteq> read_index (readers q ! r)"
    using reader_writer_slots_differ [OF assms(3-7), of r w] r rpc w rd by simp
  then show "slot_sequences q' ! read_index (readers q' ! r) = next_read_sequence (readers q' ! r)
      \<and> next_read_sequence (readers q' ! r) < next_sequence q'"
    using assms(2) r rpc rd sl nx by (auto simp: inv_matched_def)
qed

lemma commit_payload:
  assumes "commit_sequence w q = Some q'" "inv_payload N hist q" "inv_pending q"
    "inv_claim hist q"
  shows "inv_payload N hist q'"
  unfolding inv_payload_def
proof (intro allI impI)
  fix i
  assume rs: "readers q' \<noteq> []" and i: "i < N"
    and pre: "0 \<le> slot_sequences q' ! i \<and> i \<notin> committing q'"
  let ?W = "writers q ! w"
  from assms(1) have w: "w < length (writers q)" "wpc ?W = W_commit"
    and wi: "write_index ?W < length (slot_sequences q)"
    and rd: "readers q' = readers q" and bf: "buffer q' = buffer q"
    and wr: "writers q' = (writers q)[w := ?W\<lparr>wpc := W_idle\<rparr>]"
    and sl: "slot_sequences q' = (slot_sequences q)[write_index ?W := claimed_sequence ?W]"
    by (auto simp: commit_sequence_def split: if_splits)
  show "buffer q' ! i = hist ! nat (slot_sequences q' ! i)"
  proof (cases "i = write_index ?W")
    case True
    have "buffer q ! write_index ?W = wvalue ?W"
      using assms(3) rs rd w by (auto simp: inv_pending_def)
    moreover have "wvalue ?W = hist ! nat (claimed_sequence ?W)"
      using assms(4) w by (auto simp: inv_claim_def)
    ultimately show ?thesis using True bf sl wi by simp
  next
    case False
    have "i \<notin> committing q"
    proof
      assume "i \<in> committing q"
      then obtain v where v: "v < length (writers q)" "wpc (writers q ! v) = W_commit"
        "i = write_index (writers q ! v)"
        by (auto simp: committing_def)
      with False have "v \<noteq> w" by auto
      with v wr have "v < length (writers q')" "wpc (writers q' ! v) = W_commit"
        "i = write_index (writers q' ! v)" by simp_all
      then have "i \<in> committing q'" unfolding committing_def by blast
      with pre show False by simp
    qed
    moreover have "0 \<le> slot_sequences q ! i" using pre sl False by simp
    ultimately have "buffer q ! i = hist ! nat (slot_sequences q ! i)"
      using assms(2) rs rd i by (auto simp: inv_payload_def)
    then show ?thesis using bf sl False by simp
  qed
qed

subsection \<open>Starting a read\<close>

lemma next_read_shape:
  assumes "get_next_read_sequence CAPACITY r dest q = Some q'" "inv_shape N q"
  shows "inv_shape N q'"
  using assms
  by (auto simp: inv_shape_def get_next_read_sequence_def  nth_list_update split: if_splits option.splits)

lemma next_read_next:
  assumes "get_next_read_sequence CAPACITY r dest q = Some q'" "inv_next hist q"
  shows "inv_next hist q'"
  using assms
  by (auto simp: inv_next_def get_next_read_sequence_def  nth_list_update split: if_splits option.splits)

lemma next_read_slots:
  assumes "get_next_read_sequence CAPACITY r dest q = Some q'" "inv_slots N q"
  shows "inv_slots N q'"
  using assms
  by (auto simp: inv_slots_def get_next_read_sequence_def  nth_list_update split: if_splits option.splits)

lemma next_read_cache:
  assumes "get_next_read_sequence CAPACITY r dest q = Some q'" "inv_cache q"
  shows "inv_cache q'"
  using assms
  by (auto simp: inv_cache_def get_next_read_sequence_def  nth_list_update split: if_splits option.splits)

lemma next_read_claim:
  assumes "get_next_read_sequence CAPACITY r dest q = Some q'" "inv_claim hist q"
  shows "inv_claim hist q'"
  using assms
  by (auto simp: inv_claim_def get_next_read_sequence_def  nth_list_update split: if_splits option.splits)

lemma next_read_granted:
  assumes "get_next_read_sequence CAPACITY r dest q = Some q'" "inv_granted N q"
  shows "inv_granted N q'"
  using assms
  by (auto simp: inv_granted_def get_next_read_sequence_def  nth_list_update split: if_splits option.splits)

lemma next_read_load:
  assumes "get_next_read_sequence CAPACITY r dest q = Some q'" "inv_load q"
  shows "inv_load q'"
  using assms
  by (auto simp: inv_load_def get_next_read_sequence_def  nth_list_update split: if_splits option.splits)

lemma next_read_distinct:
  assumes "get_next_read_sequence CAPACITY r dest q = Some q'" "inv_distinct q"
  shows "inv_distinct q'"
  using assms
  by (auto simp: inv_distinct_def get_next_read_sequence_def  nth_list_update split: if_splits option.splits)

lemma next_read_published:
  assumes "get_next_read_sequence CAPACITY r dest q = Some q'" "inv_published N q"
  shows "inv_published N q'"
  using assms
  by (auto simp: inv_published_def get_next_read_sequence_def  nth_list_update split: if_splits option.splits)

lemma next_read_consumed:
  assumes "get_next_read_sequence CAPACITY r dest q = Some q'" "inv_consumed q"
  shows "inv_consumed q'"
  using assms
  by (auto simp: inv_consumed_def get_next_read_sequence_def  nth_list_update split: if_splits option.splits)

lemma next_read_matched:
  assumes "get_next_read_sequence CAPACITY r dest q = Some q'" "inv_matched q"
  shows "inv_matched q'"
  using assms
  by (auto simp: inv_matched_def get_next_read_sequence_def  nth_list_update split: if_splits option.splits)

lemma next_read_payload:
  assumes "get_next_read_sequence CAPACITY r dest q = Some q'" "inv_payload N hist q"
  shows "inv_payload N hist q'"
  using assms
  by (auto simp: inv_payload_def get_next_read_sequence_def  nth_list_update split: if_splits option.splits)

lemma next_read_pending:
  assumes "get_next_read_sequence CAPACITY r dest q = Some q'" "inv_pending q"
  shows "inv_pending q'"
  using assms
  by (auto simp: inv_pending_def get_next_read_sequence_def  nth_list_update split: if_splits option.splits)

lemma next_read_result:
  assumes "get_next_read_sequence CAPACITY r dest q = Some q'" "inv_result hist q"
  shows "inv_result hist q'"
  using assms
  by (auto simp: inv_result_def get_next_read_sequence_def  nth_list_update split: if_splits option.splits)

lemma next_read_backpressure:
  assumes "get_next_read_sequence CAPACITY r dest q = Some q'" "inv_backpressure N q"
  shows "inv_backpressure N q'"
  using assms
  by (auto simp: inv_backpressure_def get_next_read_sequence_def  nth_list_update split: if_splits option.splits)

lemma next_read_available:
  assumes "get_next_read_sequence CAPACITY r dest q = Some q'" "inv_available N q"
  shows "inv_available N q'"
  using assms
  by (auto simp: inv_available_def get_next_read_sequence_def in_flight_same nth_list_update split: if_splits option.splits)


lemma next_read_reader:
  assumes "get_next_read_sequence CAPACITY r dest q = Some q'" "inv_reader N q"
    "valid_capacity CAPACITY" "N = unat CAPACITY" "next_sequence q < 2 ^ 63"
  shows "inv_reader N q'"
proof -
  let ?R = "readers q ! r"
  let ?n = "wrap64 (consumer_sequence ?R + 1)"
  from assms(1) obtain i where r: "r < length (readers q)" "rpc ?R = R_idle"
    and i: "index_from_sequence CAPACITY ?n = Some i"
    and q': "q' = set_reader r (?R\<lparr>rpc := R_wait, next_read_sequence := ?n, read_index := i,
        rvalue := (case dest of None \<Rightarrow> rvalue ?R | Some d \<Rightarrow> d)\<rparr>) q"
    by (auto simp: get_next_read_sequence_def split: if_splits option.splits)
  have cs: "- 1 \<le> consumer_sequence ?R" "consumer_sequence ?R < next_sequence q"
    using assms(2) r by (auto simp: inv_reader_def)
  then have n: "?n = consumer_sequence ?R + 1"
    using assms(5) by (intro wrap64_id) linarith+
  have N: "0 < N" using valid_capacity_facts(1) [OF assms(3)] assms(4) by simp
  have "i = nat (?n mod int N)"
    using i valid_capacity_facts(4) [OF assms(3), of ?n] assms(4) by simp
  moreover from this have "i < N" using N by (simp add: nat_less_iff)
  ultimately show ?thesis
    using assms(2) r n unfolding q'
    by (auto simp: inv_reader_def nth_list_update)
qed

subsection \<open>Waiting for the stamp\<close>

lemma data_shape:
  assumes "wait_for_data r q = Some q'" "inv_shape N q"
  shows "inv_shape N q'"
  using assms
  by (auto simp: inv_shape_def wait_for_data_def  nth_list_update split: if_splits)

lemma data_next:
  assumes "wait_for_data r q = Some q'" "inv_next hist q"
  shows "inv_next hist q'"
  using assms
  by (auto simp: inv_next_def wait_for_data_def  nth_list_update split: if_splits)

lemma data_reader:
  assumes "wait_for_data r q = Some q'" "inv_reader N q"
  shows "inv_reader N q'"
  using assms
  by (auto simp: inv_reader_def wait_for_data_def  nth_list_update split: if_splits)

lemma data_slots:
  assumes "wait_for_data r q = Some q'" "inv_slots N q"
  shows "inv_slots N q'"
  using assms
  by (auto simp: inv_slots_def wait_for_data_def  nth_list_update split: if_splits)

lemma data_cache:
  assumes "wait_for_data r q = Some q'" "inv_cache q"
  shows "inv_cache q'"
  using assms
  by (auto simp: inv_cache_def wait_for_data_def  nth_list_update split: if_splits)

lemma data_claim:
  assumes "wait_for_data r q = Some q'" "inv_claim hist q"
  shows "inv_claim hist q'"
  using assms
  by (auto simp: inv_claim_def wait_for_data_def  nth_list_update split: if_splits)

lemma data_granted:
  assumes "wait_for_data r q = Some q'" "inv_granted N q"
  shows "inv_granted N q'"
  using assms
  by (auto simp: inv_granted_def wait_for_data_def  nth_list_update split: if_splits)

lemma data_load:
  assumes "wait_for_data r q = Some q'" "inv_load q"
  shows "inv_load q'"
  using assms
  by (auto simp: inv_load_def wait_for_data_def  nth_list_update split: if_splits)

lemma data_distinct:
  assumes "wait_for_data r q = Some q'" "inv_distinct q"
  shows "inv_distinct q'"
  using assms
  by (auto simp: inv_distinct_def wait_for_data_def  nth_list_update split: if_splits)

lemma data_published:
  assumes "wait_for_data r q = Some q'" "inv_published N q"
  shows "inv_published N q'"
  using assms
  by (auto simp: inv_published_def wait_for_data_def  nth_list_update split: if_splits)

lemma data_payload:
  assumes "wait_for_data r q = Some q'" "inv_payload N hist q"
  shows "inv_payload N hist q'"
  using assms
  by (auto simp: inv_payload_def wait_for_data_def  nth_list_update split: if_splits)

lemma data_pending:
  assumes "wait_for_data r q = Some q'" "inv_pending q"
  shows "inv_pending q'"
  using assms
  by (auto simp: inv_pending_def wait_for_data_def  nth_list_update split: if_splits)

lemma data_result:
  assumes "wait_for_data r q = Some q'" "inv_result hist q"
  shows "inv_result hist q'"
  using assms
  by (auto simp: inv_result_def wait_for_data_def  nth_list_update split: if_splits)

lemma data_backpressure:
  assumes "wait_for_data r q = Some q'" "inv_backpressure N q"
  shows "inv_backpressure N q'"
  using assms
  by (auto simp: inv_backpressure_def wait_for_data_def  nth_list_update split: if_splits)

lemma data_available:
  assumes "wait_for_data r q = Some q'" "inv_available N q"
  shows "inv_available N q'"
  using assms
  by (auto simp: inv_available_def wait_for_data_def in_flight_same nth_list_update split: if_splits)


lemma wait_for_data_cases:
  assumes "wait_for_data r q = Some q'"
  obtains (spin) "q' = q"
  | (ready) "r < length (readers q)" "rpc (readers q ! r) = R_wait"
      "slot_sequences q ! read_index (readers q ! r) = next_read_sequence (readers q ! r)"
      "q' = set_reader r ((readers q ! r)\<lparr>rpc := R_copy\<rparr>) q"
  using assms by (auto simp: wait_for_data_def split: if_splits)

lemma data_consumed:
  assumes "wait_for_data r q = Some q'" "inv_consumed q" "inv_published N q" "inv_reader N q"
  shows "inv_consumed q'"
  using assms(1)
proof (cases rule: wait_for_data_cases)
  case spin
  with assms(2) show ?thesis by simp
next
  case ready
  let ?R = "readers q ! r"
  have ri: "read_index ?R < N"
    using assms(4) ready(1,2) by (auto simp: inv_reader_def)
  have ne: "\<forall>w<length (writers q). wpc (writers q ! w) \<noteq> W_idle \<longrightarrow>
      next_read_sequence ?R \<noteq> claimed_sequence (writers q ! w)"
    using assms(3) ri ready(3) by (auto simp: inv_published_def)
  show ?thesis
    unfolding inv_consumed_def
  proof (intro allI impI)
    fix r' w
    assume r': "r' < length (readers q')" and w: "w < length (writers q')"
      and act: "wpc (writers q' ! w) \<noteq> W_idle"
    have old: "consumer_sequence (readers q ! r') < claimed_sequence (writers q ! w)
        \<and> (rpc (readers q ! r') = R_copy \<or> rpc (readers q ! r') = R_update \<longrightarrow>
             next_read_sequence (readers q ! r') \<noteq> claimed_sequence (writers q ! w))"
      using assms(2) r' w act ready(4) by (auto simp: inv_consumed_def)
    show "consumer_sequence (readers q' ! r') < claimed_sequence (writers q' ! w)
        \<and> (rpc (readers q' ! r') = R_copy \<or> rpc (readers q' ! r') = R_update \<longrightarrow>
             next_read_sequence (readers q' ! r') \<noteq> claimed_sequence (writers q' ! w))"
    proof (cases "r' = r")
      case True
      with old ne w act ready(1,4) show ?thesis by simp
    next
      case False
      with old ready(4) show ?thesis by simp
    qed
  qed
qed

lemma data_matched:
  assumes "wait_for_data r q = Some q'" "inv_matched q" "inv_slots N q" "inv_reader N q"
  shows "inv_matched q'"
  using assms(1)
proof (cases rule: wait_for_data_cases)
  case spin
  with assms(2) show ?thesis by simp
next
  case ready
  let ?R = "readers q ! r"
  have ri: "read_index ?R < N" and nx: "0 \<le> next_read_sequence ?R"
    using assms(4) ready(1,2) by (auto simp: inv_reader_def)
  have "slot_sequences q ! read_index ?R = - 1
      \<or> slot_sequences q ! read_index ?R < next_sequence q"
    using assms(3) ri by (auto simp: inv_slots_def)
  with nx ready(3) have lt: "next_read_sequence ?R < next_sequence q" by linarith
  show ?thesis
    unfolding inv_matched_def
  proof (intro allI impI)
    fix r'
    assume r': "r' < length (readers q')"
      and rpc: "rpc (readers q' ! r') = R_copy \<or> rpc (readers q' ! r') = R_update"
    show "slot_sequences q' ! read_index (readers q' ! r') = next_read_sequence (readers q' ! r')
        \<and> next_read_sequence (readers q' ! r') < next_sequence q'"
    proof (cases "r' = r")
      case True
      with lt ready show ?thesis by simp
    next
      case False
      with assms(2) r' rpc ready(4) show ?thesis by (auto simp: inv_matched_def)
    qed
  qed
qed

subsection \<open>Copying the payload\<close>

lemma copy_shape:
  assumes "copy_payload r q = Some q'" "inv_shape N q"
  shows "inv_shape N q'"
  using assms
  by (auto simp: inv_shape_def copy_payload_def  nth_list_update split: if_splits)

lemma copy_next:
  assumes "copy_payload r q = Some q'" "inv_next hist q"
  shows "inv_next hist q'"
  using assms
  by (auto simp: inv_next_def copy_payload_def  nth_list_update split: if_splits)

lemma copy_reader:
  assumes "copy_payload r q = Some q'" "inv_reader N q"
  shows "inv_reader N q'"
  using assms
  by (auto simp: inv_reader_def copy_payload_def  nth_list_update split: if_splits)

lemma copy_slots:
  assumes "copy_payload r q = Some q'" "inv_slots N q"
  shows "inv_slots N q'"
  using assms
  by (auto simp: inv_slots_def copy_payload_def  nth_list_update split: if_splits)

lemma copy_cache:
  assumes "copy_payload r q = Some q'" "inv_cache q"
  shows "inv_cache q'"
  using assms
  by (auto simp: inv_cache_def copy_payload_def  nth_list_update split: if_splits)

lemma copy_claim:
  assumes "copy_payload r q = Some q'" "inv_claim hist q"
  shows "inv_claim hist q'"
  using assms
  by (auto simp: inv_claim_def copy_payload_def  nth_list_update split: if_splits)

lemma copy_granted:
  assumes "copy_payload r q = Some q'" "inv_granted N q"
  shows "inv_granted N q'"
  using assms
  by (auto simp: inv_granted_def copy_payload_def  nth_list_update split: if_splits)

lemma copy_load:
  assumes "copy_payload r q = Some q'" "inv_load q"
  shows "inv_load q'"
  using assms
  by (auto simp: inv_load_def copy_payload_def  nth_list_update split: if_splits)

lemma copy_distinct:
  assumes "copy_payload r q = Some q'" "inv_distinct q"
  shows "inv_distinct q'"
  using assms
  by (auto simp: inv_distinct_def copy_payload_def  nth_list_update split: if_splits)

lemma copy_published:
  assumes "copy_payload r q = Some q'" "inv_published N q"
  shows "inv_published N q'"
  using assms
  by (auto simp: inv_published_def copy_payload_def  nth_list_update split: if_splits)

lemma copy_consumed:
  assumes "copy_payload r q = Some q'" "inv_consumed q"
  shows "inv_consumed q'"
  using assms
  by (auto simp: inv_consumed_def copy_payload_def  nth_list_update split: if_splits)

lemma copy_matched:
  assumes "copy_payload r q = Some q'" "inv_matched q"
  shows "inv_matched q'"
  using assms
  by (auto simp: inv_matched_def copy_payload_def  nth_list_update split: if_splits)

lemma copy_payload:
  assumes "copy_payload r q = Some q'" "inv_payload N hist q"
  shows "inv_payload N hist q'"
  using assms
  by (auto simp: inv_payload_def copy_payload_def  nth_list_update split: if_splits)

lemma copy_pending:
  assumes "copy_payload r q = Some q'" "inv_pending q"
  shows "inv_pending q'"
  using assms
  by (auto simp: inv_pending_def copy_payload_def  nth_list_update split: if_splits)

lemma copy_backpressure:
  assumes "copy_payload r q = Some q'" "inv_backpressure N q"
  shows "inv_backpressure N q'"
  using assms
  by (auto simp: inv_backpressure_def copy_payload_def  nth_list_update split: if_splits)

lemma copy_available:
  assumes "copy_payload r q = Some q'" "inv_available N q"
  shows "inv_available N q'"
  using assms
  by (auto simp: inv_available_def copy_payload_def in_flight_same nth_list_update split: if_splits)


lemma copy_result:
  assumes "copy_payload r q = Some q'" "inv_result hist q" "inv_payload N hist q"
    "inv_matched q" "inv_shape N q" "inv_reader N q" "inv_cache q" "inv_granted N q"
    "inv_consumed q"
  shows "inv_result hist q'"
proof -
  let ?R = "readers q ! r"
  from assms(1) have r: "r < length (readers q)" "rpc ?R = R_copy"
    and q': "q' = set_reader r (?R\<lparr>rpc := R_update, rvalue := buffer q ! read_index ?R\<rparr>) q"
    by (auto simp: copy_payload_def split: if_splits)
  have rs: "readers q \<noteq> []" using r by auto
  have ri: "read_index ?R < N" and nx: "0 \<le> next_read_sequence ?R"
    using assms(6) r by (auto simp: inv_reader_def)
  have st: "slot_sequences q ! read_index ?R = next_read_sequence ?R"
    using assms(4) r by (auto simp: inv_matched_def)
  have "read_index ?R \<notin> committing q"
  proof
    assume "read_index ?R \<in> committing q"
    then obtain v where v: "v < length (writers q)" "wpc (writers q ! v) = W_commit"
      "read_index ?R = write_index (writers q ! v)"
      by (auto simp: committing_def)
    have "write_index (writers q ! v) \<noteq> read_index ?R"
      using v(2) r(2) by (intro reader_writer_slots_differ [OF assms(5-9) r(1) v(1)]) simp_all
    with v(3) show False by simp
  qed
  then have "buffer q ! read_index ?R = hist ! nat (slot_sequences q ! read_index ?R)"
    using assms(3) rs ri st nx by (auto simp: inv_payload_def)
  then have "buffer q ! read_index ?R = hist ! nat (next_read_sequence ?R)"
    using st by simp
  then show ?thesis
    using assms(2) r unfolding q'
    by (auto simp: inv_result_def nth_list_update)
qed

subsection \<open>Advancing the consumer sequence\<close>

lemma update_shape:
  assumes "update_consumer_sequence r q = Some q'" "inv_shape N q"
  shows "inv_shape N q'"
  using assms
  by (auto simp: inv_shape_def update_consumer_sequence_def  nth_list_update split: if_splits)

lemma update_next:
  assumes "update_consumer_sequence r q = Some q'" "inv_next hist q"
  shows "inv_next hist q'"
  using assms
  by (auto simp: inv_next_def update_consumer_sequence_def  nth_list_update split: if_splits)

lemma update_reader:
  assumes "update_consumer_sequence r q = Some q'" "inv_reader N q" "inv_matched q"
  shows "inv_reader N q'"
  using assms
  by (auto simp: inv_reader_def inv_matched_def update_consumer_sequence_def  nth_list_update split: if_splits)

lemma update_slots:
  assumes "update_consumer_sequence r q = Some q'" "inv_slots N q"
  shows "inv_slots N q'"
  using assms
  by (auto simp: inv_slots_def update_consumer_sequence_def  nth_list_update split: if_splits)

lemma update_cache:
  assumes "update_consumer_sequence r q = Some q'" "inv_cache q" "inv_reader N q"
  shows "inv_cache q'"
  using assms
  by (auto simp: inv_cache_def inv_reader_def update_consumer_sequence_def  nth_list_update split: if_splits; (smt (verit)))

lemma update_claim:
  assumes "update_consumer_sequence r q = Some q'" "inv_claim hist q"
  shows "inv_claim hist q'"
  using assms
  by (auto simp: inv_claim_def update_consumer_sequence_def  nth_list_update split: if_splits)

lemma update_granted:
  assumes "update_consumer_sequence r q = Some q'" "inv_granted N q"
  shows "inv_granted N q'"
  using assms
  by (auto simp: inv_granted_def update_consumer_sequence_def  nth_list_update split: if_splits)

lemma update_load:
  assumes "update_consumer_sequence r q = Some q'" "inv_load q" "inv_reader N q"
  shows "inv_load q'"
  using assms
  by (auto simp: inv_load_def inv_reader_def update_consumer_sequence_def  nth_list_update split: if_splits; (smt (verit)))

lemma update_distinct:
  assumes "update_consumer_sequence r q = Some q'" "inv_distinct q"
  shows "inv_distinct q'"
  using assms
  by (auto simp: inv_distinct_def update_consumer_sequence_def  nth_list_update split: if_splits)

lemma update_published:
  assumes "update_consumer_sequence r q = Some q'" "inv_published N q"
  shows "inv_published N q'"
  using assms
  by (auto simp: inv_published_def update_consumer_sequence_def  nth_list_update split: if_splits)

lemma update_consumed:
  assumes "update_consumer_sequence r q = Some q'" "inv_consumed q" "inv_reader N q"
  shows "inv_consumed q'"
  using assms
  by (auto simp: inv_consumed_def inv_reader_def update_consumer_sequence_def  nth_list_update split: if_splits; (smt (verit)))

lemma update_matched:
  assumes "update_consumer_sequence r q = Some q'" "inv_matched q"
  shows "inv_matched q'"
  using assms
  by (auto simp: inv_matched_def update_consumer_sequence_def  nth_list_update split: if_splits)

lemma update_payload:
  assumes "update_consumer_sequence r q = Some q'" "inv_payload N hist q"
  shows "inv_payload N hist q'"
  using assms
  by (auto simp: inv_payload_def update_consumer_sequence_def  nth_list_update split: if_splits)

lemma update_pending:
  assumes "update_consumer_sequence r q = Some q'" "inv_pending q"
  shows "inv_pending q'"
  using assms
  by (auto simp: inv_pending_def update_consumer_sequence_def  nth_list_update split: if_splits)

lemma update_result:
  assumes "update_consumer_sequence r q = Some q'" "inv_result hist q"
  shows "inv_result hist q'"
  using assms
  by (auto simp: inv_result_def update_consumer_sequence_def  nth_list_update split: if_splits)

lemma update_backpressure:
  assumes "update_consumer_sequence r q = Some q'" "inv_backpressure N q" "inv_reader N q"
  shows "inv_backpressure N q'"
  using assms
  by (auto simp: inv_backpressure_def inv_reader_def update_consumer_sequence_def  nth_list_update split: if_splits; (smt (verit)))

lemma update_available:
  assumes "update_consumer_sequence r q = Some q'" "inv_available N q"
  shows "inv_available N q'"
  using assms
  by (auto simp: inv_available_def update_consumer_sequence_def in_flight_same nth_list_update split: if_splits)

subsection \<open>All steps\<close>

lemma invariantD:
  assumes "invariant N hist q"
  shows "inv_shape N q" "inv_next hist q" "inv_reader N q" "inv_slots N q" "inv_cache q"
    "inv_claim hist q" "inv_granted N q" "inv_load q" "inv_distinct q" "inv_published N q"
    "inv_consumed q" "inv_matched q" "inv_payload N hist q" "inv_pending q" "inv_result hist q"
    "inv_backpressure N q" "inv_available N q"
  using assms by (simp_all add: invariant_def)

lemma invariant_WriteCall:
  assumes "invariant N hist q" "fetch_add w v q = Some q'"
    "valid_capacity CAPACITY" "N = unat CAPACITY" "int (length (hist @ written (WriteCall w v))) < 2 ^ 63"
  shows "invariant N (hist @ written (WriteCall w v)) q'"
proof -
  note I = invariantD [OF assms(1)]
  have b: "next_sequence q < 2 ^ 63"
    using I(2) assms(5) by (simp add: inv_next_def)
  have c: "int (length hist) + 1 < 2 ^ 63" using assms(5) by simp
  note st = assms(2) c
  note J = I assms(3,4) b
  show ?thesis
    unfolding invariant_def written.simps append_Nil2
    by (intro conjI;
      (rule fetch_shape [OF st]
        fetch_next [OF st]
        fetch_reader [OF st]
        fetch_slots [OF st]
        fetch_cache [OF st]
        fetch_claim [OF st]
        fetch_granted [OF st]
        fetch_load [OF st]
        fetch_distinct [OF st]
        fetch_published [OF st]
        fetch_consumed [OF st]
        fetch_matched [OF st]
        fetch_payload [OF st]
        fetch_pending [OF st]
        fetch_result [OF st]
        fetch_backpressure [OF st]
        fetch_available [OF st]; (rule J)))
qed

lemma invariant_WWait:
  assumes "invariant N hist q" "wait_for_no_wrap CAPACITY w q = Some q'"
    "valid_capacity CAPACITY" "N = unat CAPACITY" "int (length (hist @ written (WWait w))) < 2 ^ 63"
  shows "invariant N (hist @ written (WWait w)) q'"
proof -
  note I = invariantD [OF assms(1)]
  have b: "next_sequence q < 2 ^ 63"
    using I(2) assms(5) by (simp add: inv_next_def)
  note st = assms(2)
  note J = I assms(3,4) b
  show ?thesis
    unfolding invariant_def written.simps append_Nil2
    by (intro conjI;
      (rule wait_shape [OF st]
        wait_next [OF st]
        wait_reader [OF st]
        wait_slots [OF st]
        wait_cache [OF st]
        wait_claim [OF st]
        wait_granted [OF st]
        wait_load [OF st]
        wait_distinct [OF st]
        wait_published [OF st]
        wait_consumed [OF st]
        wait_matched [OF st]
        wait_payload [OF st]
        wait_pending [OF st]
        wait_result [OF st]
        wait_backpressure [OF st]
        wait_available [OF st]; (rule J)))
qed

lemma invariant_WLoad:
  assumes "invariant N hist q" "load_consumer_sequence w q = Some q'"
    "valid_capacity CAPACITY" "N = unat CAPACITY" "int (length (hist @ written (WLoad w))) < 2 ^ 63"
  shows "invariant N (hist @ written (WLoad w)) q'"
proof -
  note I = invariantD [OF assms(1)]
  have b: "next_sequence q < 2 ^ 63"
    using I(2) assms(5) by (simp add: inv_next_def)
  note st = assms(2)
  note J = I assms(3,4) b
  show ?thesis
    unfolding invariant_def written.simps append_Nil2
    by (intro conjI;
      (rule load_shape [OF st]
        load_next [OF st]
        load_reader [OF st]
        load_slots [OF st]
        load_cache [OF st]
        load_claim [OF st]
        load_granted [OF st]
        load_load [OF st]
        load_distinct [OF st]
        load_published [OF st]
        load_consumed [OF st]
        load_matched [OF st]
        load_payload [OF st]
        load_pending [OF st]
        load_result [OF st]
        load_backpressure [OF st]
        load_available [OF st]; (rule J)))
qed

lemma invariant_WStore:
  assumes "invariant N hist q" "store_payload w q = Some q'"
    "valid_capacity CAPACITY" "N = unat CAPACITY" "int (length (hist @ written (WStore w))) < 2 ^ 63"
  shows "invariant N (hist @ written (WStore w)) q'"
proof -
  note I = invariantD [OF assms(1)]
  have b: "next_sequence q < 2 ^ 63"
    using I(2) assms(5) by (simp add: inv_next_def)
  note st = assms(2)
  note J = I assms(3,4) b
  show ?thesis
    unfolding invariant_def written.simps append_Nil2
    by (intro conjI;
      (rule store_shape [OF st]
        store_next [OF st]
        store_reader [OF st]
        store_slots [OF st]
        store_cache [OF st]
        store_claim [OF st]
        store_granted [OF st]
        store_load [OF st]
        store_distinct [OF st]
        store_published [OF st]
        store_consumed [OF st]
        store_matched [OF st]
        store_payload [OF st]
        store_pending [OF st]
        store_result [OF st]
        store_backpressure [OF st]
        store_available [OF st]; (rule J)))
qed

lemma invariant_WCommit:
  assumes "invariant N hist q" "commit_sequence w q = Some q'"
    "valid_capacity CAPACITY" "N = unat CAPACITY" "int (length (hist @ written (WCommit w))) < 2 ^ 63"
  shows "invariant N (hist @ written (WCommit w)) q'"
proof -
  note I = invariantD [OF assms(1)]
  have b: "next_sequence q < 2 ^ 63"
    using I(2) assms(5) by (simp add: inv_next_def)
  note st = assms(2)
  note J = I assms(3,4) b
  show ?thesis
    unfolding invariant_def written.simps append_Nil2
    by (intro conjI;
      (rule commit_shape [OF st]
        commit_next [OF st]
        commit_reader [OF st]
        commit_slots [OF st]
        commit_cache [OF st]
        commit_claim [OF st]
        commit_granted [OF st]
        commit_load [OF st]
        commit_distinct [OF st]
        commit_published [OF st]
        commit_consumed [OF st]
        commit_matched [OF st]
        commit_payload [OF st]
        commit_pending [OF st]
        commit_result [OF st]
        commit_backpressure [OF st]
        commit_available [OF st]; (rule J)))
qed

lemma invariant_ReadCall:
  assumes "invariant N hist q" "get_next_read_sequence CAPACITY r None q = Some q'"
    "valid_capacity CAPACITY" "N = unat CAPACITY" "int (length (hist @ written (ReadCall r))) < 2 ^ 63"
  shows "invariant N (hist @ written (ReadCall r)) q'"
proof -
  note I = invariantD [OF assms(1)]
  have b: "next_sequence q < 2 ^ 63"
    using I(2) assms(5) by (simp add: inv_next_def)
  note st = assms(2)
  note J = I assms(3,4) b
  show ?thesis
    unfolding invariant_def written.simps append_Nil2
    by (intro conjI;
      (rule next_read_shape [OF st]
        next_read_next [OF st]
        next_read_reader [OF st]
        next_read_slots [OF st]
        next_read_cache [OF st]
        next_read_claim [OF st]
        next_read_granted [OF st]
        next_read_load [OF st]
        next_read_distinct [OF st]
        next_read_published [OF st]
        next_read_consumed [OF st]
        next_read_matched [OF st]
        next_read_payload [OF st]
        next_read_pending [OF st]
        next_read_result [OF st]
        next_read_backpressure [OF st]
        next_read_available [OF st]; (rule J)))
qed

lemma invariant_ReadIntoCall:
  assumes "invariant N hist q" "get_next_read_sequence CAPACITY r (Some d) q = Some q'"
    "valid_capacity CAPACITY" "N = unat CAPACITY" "int (length (hist @ written (ReadIntoCall r d))) < 2 ^ 63"
  shows "invariant N (hist @ written (ReadIntoCall r d)) q'"
proof -
  note I = invariantD [OF assms(1)]
  have b: "next_sequence q < 2 ^ 63"
    using I(2) assms(5) by (simp add: inv_next_def)
  note st = assms(2)
  note J = I assms(3,4) b
  show ?thesis
    unfolding invariant_def written.simps append_Nil2
    by (intro conjI;
      (rule next_read_shape [OF st]
        next_read_next [OF st]
        next_read_reader [OF st]
        next_read_slots [OF st]
        next_read_cache [OF st]
        next_read_claim [OF st]
        next_read_granted [OF st]
        next_read_load [OF st]
        next_read_distinct [OF st]
        next_read_published [OF st]
        next_read_consumed [OF st]
        next_read_matched [OF st]
        next_read_payload [OF st]
        next_read_pending [OF st]
        next_read_result [OF st]
        next_read_backpressure [OF st]
        next_read_available [OF st]; (rule J)))
qed

lemma invariant_RWait:
  assumes "invariant N hist q" "wait_for_data r q = Some q'"
    "valid_capacity CAPACITY" "N = unat CAPACITY" "int (length (hist @ written (RWait r))) < 2 ^ 63"
  shows "invariant N (hist @ written (RWait r)) q'"
proof -
  note I = invariantD [OF assms(1)]
  have b: "next_sequence q < 2 ^ 63"
    using I(2) assms(5) by (simp add: inv_next_def)
  note st = assms(2)
  note J = I assms(3,4) b
  show ?thesis
    unfolding invariant_def written.simps append_Nil2
    by (intro conjI;
      (rule data_shape [OF st]
        data_next [OF st]
        data_reader [OF st]
        data_slots [OF st]
        data_cache [OF st]
        data_claim [OF st]
        data_granted [OF st]
        data_load [OF st]
        data_distinct [OF st]
        data_published [OF st]
        data_consumed [OF st]
        data_matched [OF st]
        data_payload [OF st]
        data_pending [OF st]
        data_result [OF st]
        data_backpressure [OF st]
        data_available [OF st]; (rule J)))
qed

lemma invariant_RCopy:
  assumes "invariant N hist q" "copy_payload r q = Some q'"
    "valid_capacity CAPACITY" "N = unat CAPACITY" "int (length (hist @ written (RCopy r))) < 2 ^ 63"
  shows "invariant N (hist @ written (RCopy r)) q'"
proof -
  note I = invariantD [OF assms(1)]
  have b: "next_sequence q < 2 ^ 63"
    using I(2) assms(5) by (simp add: inv_next_def)
  note st = assms(2)
  note J = I assms(3,4) b
  show ?thesis
    unfolding invariant_def written.simps append_Nil2
    by (intro conjI;
      (rule copy_shape [OF st]
        copy_next [OF st]
        copy_reader [OF st]
        copy_slots [OF st]
        copy_cache [OF st]
        copy_claim [OF st]
        copy_granted [OF st]
        copy_load [OF st]
        copy_distinct [OF st]
        copy_published [OF st]
        copy_consumed [OF st]
        copy_matched [OF st]
        copy_payload [OF st]
        copy_pending [OF st]
        copy_result [OF st]
        copy_backpressure [OF st]
        copy_available [OF st]; (rule J)))
qed

lemma invariant_RUpdate:
  assumes "invariant N hist q" "update_consumer_sequence r q = Some q'"
    "valid_capacity CAPACITY" "N = unat CAPACITY" "int (length (hist @ written (RUpdate r))) < 2 ^ 63"
  shows "invariant N (hist @ written (RUpdate r)) q'"
proof -
  note I = invariantD [OF assms(1)]
  have b: "next_sequence q < 2 ^ 63"
    using I(2) assms(5) by (simp add: inv_next_def)
  note st = assms(2)
  note J = I assms(3,4) b
  show ?thesis
    unfolding invariant_def written.simps append_Nil2
    by (intro conjI;
      (rule update_shape [OF st]
        update_next [OF st]
        update_reader [OF st]
        update_slots [OF st]
        update_cache [OF st]
        update_claim [OF st]
        update_granted [OF st]
        update_load [OF st]
        update_distinct [OF st]
        update_published [OF st]
        update_consumed [OF st]
        update_matched [OF st]
        update_payload [OF st]
        update_pending [OF st]
        update_result [OF st]
        update_backpressure [OF st]
        update_available [OF st]; (rule J)))
qed


lemma step_invariant:
  assumes "invariant N hist q" "step CAPACITY e q = Some q'"
    "valid_capacity CAPACITY" "N = unat CAPACITY" "int (length (hist @ written e)) < 2 ^ 63"
  shows "invariant N (hist @ written e) q'"
proof (cases e)
  case (WriteCall w v)
  show ?thesis using assms unfolding WriteCall step.simps by (rule invariant_WriteCall)
  next
  case (WWait w)
  show ?thesis using assms unfolding WWait step.simps by (rule invariant_WWait)
  next
  case (WLoad w)
  show ?thesis using assms unfolding WLoad step.simps by (rule invariant_WLoad)
  next
  case (WStore w)
  show ?thesis using assms unfolding WStore step.simps by (rule invariant_WStore)
  next
  case (WCommit w)
  show ?thesis using assms unfolding WCommit step.simps by (rule invariant_WCommit)
  next
  case (ReadCall r)
  show ?thesis using assms unfolding ReadCall step.simps by (rule invariant_ReadCall)
  next
  case (ReadIntoCall r d)
  show ?thesis using assms unfolding ReadIntoCall step.simps by (rule invariant_ReadIntoCall)
  next
  case (RWait r)
  show ?thesis using assms unfolding RWait step.simps by (rule invariant_RWait)
  next
  case (RCopy r)
  show ?thesis using assms unfolding RCopy step.simps by (rule invariant_RCopy)
  next
  case (RUpdate r)
  show ?thesis using assms unfolding RUpdate step.simps by (rule invariant_RUpdate)
qed

section \<open>Reachable states\<close>

lemma run_append:
  "run CAPACITY q (xs @ ys) =
     (case run CAPACITY q xs of None \<Rightarrow> None | Some q1 \<Rightarrow> run CAPACITY q1 ys)"
  by (induction xs arbitrary: q) (auto split: option.splits)

lemma run_snoc:
  "run CAPACITY q (xs @ [e]) = Some q' \<longleftrightarrow>
     (\<exists>q1. run CAPACITY q xs = Some q1 \<and> step CAPACITY e q1 = Some q')"
  by (auto simp: run_append split: option.splits)

lemma history_append:
  "run CAPACITY q xs = Some q1 \<Longrightarrow>
     history CAPACITY q (xs @ ys) = history CAPACITY q xs @ history CAPACITY q1 ys"
  by (induction xs arbitrary: q) (auto split: option.splits)

lemma history_snoc:
  "run CAPACITY q xs = Some q1 \<Longrightarrow> step CAPACITY e q1 = Some q2 \<Longrightarrow>
     history CAPACITY q (xs @ [e]) = history CAPACITY q xs @ [(e, q1)]"
  by (simp add: history_append)

lemma claim_order_snoc: "claim_order (tr @ [e]) = claim_order tr @ written e"
  by (simp add: claim_order_def)

lemma create_reader_funpow:
  "((create_reader dflt) ^^ n) q = q\<lparr>readers := readers q @ replicate n (new_reader dflt)\<rparr>"
  by (induction n) (simp_all add: create_reader_def replicate_append_same)

lemma create_writer_funpow:
  "((create_writer dflt) ^^ n) q = q\<lparr>writers := writers q @ replicate n (new_writer dflt)\<rparr>"
  by (induction n) (simp_all add: create_writer_def replicate_append_same)

lemma setup_queue_eq:
  "setup_queue CAPACITY dflt nr nw =
     \<lparr>buffer = replicate (unat CAPACITY) dflt,
      slot_sequences = replicate (unat CAPACITY) INITIAL_SEQUENCE,
      next_sequence = 0,
      readers = replicate nr (new_reader dflt),
      writers = replicate nw (new_writer dflt)\<rparr>"
  by (simp add: setup_queue_def create_reader_funpow create_writer_funpow new_queue_def)

lemma invariant_setup:
  assumes "valid_capacity CAPACITY"
  shows "invariant (unat CAPACITY) [] (setup_queue CAPACITY dflt nr nw)"
  using valid_capacity_facts(1) [OF assms]
  by (simp add: invariant_def inv_shape_def inv_next_def inv_reader_def inv_slots_def
      inv_cache_def inv_claim_def inv_granted_def inv_load_def inv_distinct_def
      inv_published_def inv_consumed_def inv_matched_def inv_payload_def inv_pending_def
      inv_result_def inv_backpressure_def inv_available_def setup_queue_eq new_reader_def new_writer_def
      INITIAL_SEQUENCE_def SEQUENCE_MAX_def)

lemma length_claim_order_mono:
  "length (claim_order tr) \<le> length (claim_order (tr @ es))"
  by (simp add: claim_order_def)

lemma reachable_invariant:
  assumes "valid_capacity CAPACITY"
    and "run CAPACITY (setup_queue CAPACITY dflt nr nw) tr = Some q"
    and "int (length (claim_order tr)) < 2 ^ 63"
  shows "invariant (unat CAPACITY) (claim_order tr) q"
  using assms(2,3)
proof (induction tr arbitrary: q rule: rev_induct)
  case Nil
  then show ?case
    using invariant_setup [OF assms(1), of dflt nr nw] by (simp add: claim_order_def)
next
  case (snoc e tr)
  from snoc.prems(1) obtain q1
    where q1: "run CAPACITY (setup_queue CAPACITY dflt nr nw) tr = Some q1"
      and st: "step CAPACITY e q1 = Some q"
    by (auto simp: run_snoc)
  have "int (length (claim_order tr)) < 2 ^ 63"
    using snoc.prems(2) by (simp add: claim_order_snoc)
  then have "invariant (unat CAPACITY) (claim_order tr) q1"
    using q1 by (intro snoc.IH)
  then show ?case
    unfolding claim_order_snoc
    using st assms(1) snoc.prems(2)
    by (intro step_invariant [where CAPACITY = CAPACITY and q = q1]) (simp_all add: claim_order_snoc)
qed

lemmas step_defs = fetch_add_def wait_for_no_wrap_def load_consumer_sequence_def
  store_payload_def commit_sequence_def get_next_read_sequence_def wait_for_data_def
  copy_payload_def update_consumer_sequence_def

lemma step_lengths:
  assumes "step CAPACITY e q = Some q'"
  shows "length (readers q') = length (readers q)" and "length (writers q') = length (writers q)"
    and "length (buffer q') = length (buffer q)"
    and "length (slot_sequences q') = length (slot_sequences q)"
  using assms
  by (cases e; auto simp: step_defs split: if_splits option.splits writer_pc.splits)+

lemma run_lengths:
  assumes "run CAPACITY q tr = Some q'"
  shows "length (readers q') = length (readers q)" and "length (writers q') = length (writers q)"
  using assms
  by (induction tr arbitrary: q; auto simp: step_lengths split: option.splits)+

lemma setup_lengths:
  "length (readers (setup_queue CAPACITY dflt nr nw)) = nr"
  "length (writers (setup_queue CAPACITY dflt nr nw)) = nw"
  by (simp_all add: setup_queue_eq)

lemma step_slot_sequences:
  assumes "step CAPACITY e q = Some q'"
  shows "slot_sequences q' =
     (case e of
        WCommit w \<Rightarrow> (slot_sequences q)[write_index (writers q ! w) := claimed_sequence (writers q ! w)]
      | _ \<Rightarrow> slot_sequences q)"
  using assms
  by (cases e; auto simp: step_defs split: if_splits option.splits writer_pc.splits)

lemma step_consumer_sequence:
  assumes "step CAPACITY e q = Some q'" "r < length (readers q)"
  shows "consumer_sequence (readers q' ! r) =
     (if e = RUpdate r then next_read_sequence (readers q ! r)
      else consumer_sequence (readers q ! r))"
  using assms
  by (cases e; auto simp: step_defs nth_list_update split: if_splits option.splits writer_pc.splits)

lemma step_cached:
  assumes "step CAPACITY e q = Some q'" "w < length (writers q)"
    "cached_min_consumer_sequence (writers q' ! w) \<noteq> cached_min_consumer_sequence (writers q ! w)"
  shows "e = WWait w \<or> e = WLoad w"
  using assms
  by (cases e; auto simp: step_defs nth_list_update split: if_splits option.splits writer_pc.splits)

lemma observed_snoc:
  assumes "run CAPACITY q tr = Some q1" "step CAPACITY e q1 = Some q2"
  shows "observed CAPACITY q r (tr @ [e]) = observed CAPACITY q r tr @ returned r e q1"
  using assms by (simp add: observed_def history_snoc)

lemma publications_snoc:
  assumes "run CAPACITY q tr = Some q1" "step CAPACITY e q1 = Some q2"
  shows "publications CAPACITY q (tr @ [e]) = publications CAPACITY q tr @ published e q1"
  using assms by (simp add: publications_def history_snoc)

lemma completed_reads_snoc:
  "completed_reads r (tr @ [e]) = completed_reads r tr + (if e = RUpdate r then 1 else 0)"
  by (simp add: completed_reads_def)

lemma last_published_snoc:
  "last_published (ps @ [p]) i = (if fst p = i then snd p else last_published ps i)"
  by (simp add: last_published_def)

lemma last_published_Nil: "last_published [] i = - 1"
  by (simp add: last_published_def INITIAL_SEQUENCE_def)

lemma last_published_initial:
  assumes "\<forall>p \<in> set ps. 0 \<le> snd p"
  shows "(last_published ps i = - 1) = (i \<notin> fst ` set ps)"
  using assms
proof (induction ps rule: rev_induct)
  case Nil
  show ?case by (simp add: last_published_Nil)
next
  case (snoc p ps)
  then show ?case by (auto simp: last_published_snoc)
qed

lemma trace_inv_step:
  assumes inv: "invariant (unat CAPACITY) (claim_order tr) q1"
    and tinv: "trace_inv CAPACITY q0 tr q1"
    and run: "run CAPACITY q0 tr = Some q1"
    and st: "step CAPACITY e q1 = Some q"
  shows "trace_inv CAPACITY q0 (tr @ [e]) q"
proof -
  note I = invariantD [OF inv]
  note L = step_lengths [OF st]
  have readers: "consumer_sequence (readers q ! r) = int (completed_reads r (tr @ [e])) - 1
      \<and> observed CAPACITY q0 r (tr @ [e])
          = take (completed_reads r (tr @ [e])) (claim_order (tr @ [e]))"
    if r: "r < length (readers q1)" for r
  proof -
    let ?R = "readers q1 ! r" and ?M = "completed_reads r tr"
    have cs: "consumer_sequence ?R = int ?M - 1"
      and ob: "observed CAPACITY q0 r tr = take ?M (claim_order tr)"
      using tinv r by (auto simp: trace_inv_def)
    have le: "?M \<le> length (claim_order tr)"
      using I(2,3) r cs by (auto simp: inv_next_def inv_reader_def)
    show ?thesis
    proof (cases "e = RUpdate r")
      case True
      from st True have pc: "rpc ?R = R_update"
        by (auto simp: update_consumer_sequence_def split: if_splits)
      have nx: "next_read_sequence ?R = consumer_sequence ?R + 1"
        using I(3) r pc by (auto simp: inv_reader_def)
      have lt: "next_read_sequence ?R < next_sequence q1"
        using I(12) r pc by (auto simp: inv_matched_def)
      have rv: "rvalue ?R = claim_order tr ! nat (next_read_sequence ?R)"
        using I(15) r pc by (auto simp: inv_result_def)
      have M: "nat (next_read_sequence ?R) = ?M" using nx cs by simp
      have Mlt: "?M < length (claim_order tr)"
        using lt nx cs I(2) by (simp add: inv_next_def)
      have "observed CAPACITY q0 r (tr @ [e]) = take ?M (claim_order tr) @ [claim_order tr ! ?M]"
        using observed_snoc [OF run st, of r] ob rv M True by simp
      also have "\<dots> = take (Suc ?M) (claim_order tr)"
        using Mlt by (simp add: take_Suc_conv_app_nth)
      finally have "observed CAPACITY q0 r (tr @ [e])
          = take (completed_reads r (tr @ [e])) (claim_order (tr @ [e]))"
        using True by (simp add: completed_reads_snoc claim_order_snoc)
      moreover have "consumer_sequence (readers q ! r) = int (completed_reads r (tr @ [e])) - 1"
        using step_consumer_sequence [OF st r] True nx cs
        by (simp add: completed_reads_snoc)
      ultimately show ?thesis by simp
    next
      case False
      have "returned r e q1 = []" using False by (cases e) auto
      then have "observed CAPACITY q0 r (tr @ [e]) = take ?M (claim_order tr)"
        using observed_snoc [OF run st, of r] ob by simp
      also have "\<dots> = take ?M (claim_order (tr @ [e]))"
        using le by (simp add: claim_order_snoc)
      finally have "observed CAPACITY q0 r (tr @ [e])
          = take (completed_reads r (tr @ [e])) (claim_order (tr @ [e]))"
        using False by (simp add: completed_reads_snoc)
      moreover have "consumer_sequence (readers q ! r) = int (completed_reads r (tr @ [e])) - 1"
        using step_consumer_sequence [OF st r] False cs
        by (simp add: completed_reads_snoc)
      ultimately show ?thesis by simp
    qed
  qed
  have pubs: "publications CAPACITY q0 (tr @ [e]) = publications CAPACITY q0 tr @ published e q1"
    using run st by (rule publications_snoc)
  have slots: "slot_sequences q ! i = last_published (publications CAPACITY q0 (tr @ [e])) i"
    if i: "i < unat CAPACITY" for i
  proof -
    have old: "slot_sequences q1 ! i = last_published (publications CAPACITY q0 tr) i"
      using tinv i by (auto simp: trace_inv_def)
    show ?thesis
    proof (cases e)
      case (WCommit w)
      with st have "write_index (writers q1 ! w) < length (slot_sequences q1)"
        by (auto simp: commit_sequence_def split: if_splits)
      with WCommit old step_slot_sequences [OF st] show ?thesis
        unfolding pubs by (simp add: last_published_snoc nth_list_update)
    qed (use old step_slot_sequences [OF st] in \<open>unfold pubs, simp_all\<close>)
  qed
  have nonneg: "0 \<le> snd p" if p: "p \<in> set (publications CAPACITY q0 (tr @ [e]))" for p
  proof -
    from p consider "p \<in> set (publications CAPACITY q0 tr)" | "p \<in> set (published e q1)"
      unfolding pubs by auto
    then show ?thesis
    proof cases
      case 1
      with tinv show ?thesis by (auto simp: trace_inv_def)
    next
      case 2
      then obtain w where e: "e = WCommit w"
        and p: "p = (write_index (writers q1 ! w), claimed_sequence (writers q1 ! w))"
        by (cases e) auto
      from st e have "w < length (writers q1)" "wpc (writers q1 ! w) = W_commit"
        by (auto simp: commit_sequence_def split: if_splits)
      with I(6) p show ?thesis by (auto simp: inv_claim_def)
    qed
  qed
  show ?thesis
    unfolding trace_inv_def using readers slots nonneg L(1) by simp
qed

lemma reachable_trace_inv:
  assumes "valid_capacity CAPACITY"
    and "run CAPACITY (setup_queue CAPACITY dflt nr nw) tr = Some q"
    and "int (length (claim_order tr)) < 2 ^ 63"
  shows "trace_inv CAPACITY (setup_queue CAPACITY dflt nr nw) tr q"
  using assms(2,3)
proof (induction tr arbitrary: q rule: rev_induct)
  case Nil
  then show ?case
    by (auto simp: trace_inv_def completed_reads_def observed_def publications_def
        last_published_Nil setup_queue_eq new_reader_def INITIAL_SEQUENCE_def)
next
  case (snoc e tr)
  from snoc.prems(1) obtain q1
    where q1: "run CAPACITY (setup_queue CAPACITY dflt nr nw) tr = Some q1"
      and st: "step CAPACITY e q1 = Some q"
    by (auto simp: run_snoc)
  have b: "int (length (claim_order tr)) < 2 ^ 63"
    using snoc.prems(2) by (simp add: claim_order_snoc)
  show ?case
    using reachable_invariant [OF assms(1) q1 b] snoc.IH [OF q1 b] q1 st
    by (rule trace_inv_step)
qed

section \<open>Revisions 1 and 3\<close>

text \<open>
  For a payload type whose move is a copy, the read of revision 1 is the read of
  revision 2.
\<close>

lemma move_payload_id: "move_payload (\<lambda>v. v) r q = copy_payload r q"
  by (simp add: move_payload_def copy_payload_def)

text \<open>
  In revision 3 only a claim changes \<^verbatim>\<open>_producer_sequence\<close>.
\<close>

lemma set_writer_r3_producer_sequence [simp]:
  "producer_sequence (set_writer_r3 w x q) = producer_sequence q"
  by (simp add: set_writer_r3_def)

lemma set_reader_r3_producer_sequence [simp]:
  "producer_sequence (set_reader_r3 r x q) = producer_sequence q"
  by (simp add: set_reader_r3_def)

lemma fetch_add_r3_claims:
  assumes "fetch_add_r3 w v q = Some q'"
  shows "claimed_sequence_r3 (writers_r3 q' ! w) = producer_sequence q"
    and "producer_sequence q' = wrap64 (producer_sequence q + 1)"
  using assms by (auto simp: fetch_add_r3_def set_writer_r3_def split: if_splits)

lemma writer_step_r3_producer_sequence:
  assumes "writer_step_r3 CAPACITY w q = Some q'"
  shows "producer_sequence q' = producer_sequence q"
  using assms
  by (auto simp: writer_step_r3_def wait_for_no_wrap_r3_def load_consumer_sequence_r3_def
      store_payload_r3_def wait_for_previous_r3_def publish_r3_def
      split: if_splits writer_pc_r3.splits option.splits)

lemma reader_step_r3_producer_sequence:
  assumes "reader_step_r3 r q = Some q'"
  shows "producer_sequence q' = producer_sequence q"
  using assms
  by (auto simp: reader_step_r3_def split: if_splits reader_pc.splits)

lemma get_next_read_sequence_r3_producer_sequence:
  assumes "get_next_read_sequence_r3 CAPACITY r q = Some q'"
  shows "producer_sequence q' = producer_sequence q"
  using assms
  by (auto simp: get_next_read_sequence_r3_def split: if_splits option.splits)

lemma run_r3_producer_sequence:
  assumes "run_r3 CAPACITY q tr = Some q'"
    and "- (2 ^ 63) \<le> producer_sequence q"
    and "producer_sequence q + int (claims_r3 tr) < 2 ^ 63"
  shows "producer_sequence q' = producer_sequence q + int (claims_r3 tr)"
  using assms
proof (induction tr arbitrary: q)
  case Nil
  then show ?case by simp
next
  case (Cons e es)
  from Cons.prems(1) obtain q1 where st: "step_r3 CAPACITY e q = Some q1"
    and rn: "run_r3 CAPACITY q1 es = Some q'"
    by (auto split: option.splits)
  show ?case
  proof (cases e)
    case (Write_r3 w v)
    with st have "producer_sequence q1 = wrap64 (producer_sequence q + 1)"
      by (simp add: fetch_add_r3_claims(2))
    also have "\<dots> = producer_sequence q + 1"
      using Cons.prems(2,3) Write_r3 by (intro wrap64_id) simp_all
    finally have p: "producer_sequence q1 = producer_sequence q + 1" .
    with Cons.IH [OF rn] Cons.prems(2,3) Write_r3 show ?thesis by simp
  next
    case (Writer_r3 w)
    with st have "producer_sequence q1 = producer_sequence q"
      by (simp add: writer_step_r3_producer_sequence)
    with Cons.IH [OF rn] Cons.prems(2,3) Writer_r3 show ?thesis by simp
  next
    case (Read_r3 r)
    with st have "producer_sequence q1 = producer_sequence q"
      by (simp add: get_next_read_sequence_r3_producer_sequence)
    with Cons.IH [OF rn] Cons.prems(2,3) Read_r3 show ?thesis by simp
  next
    case (Reader_r3 r)
    with st have "producer_sequence q1 = producer_sequence q"
      by (simp add: reader_step_r3_producer_sequence)
    with Cons.IH [OF rn] Cons.prems(2,3) Reader_r3 show ?thesis by simp
  qed
qed

lemma producer_sequence_create_readers:
  "producer_sequence (foldl (create_reader_r3 dflt) q cs) = producer_sequence q"
  by (induction cs arbitrary: q) (simp_all add: create_reader_r3_def)

lemma producer_sequence_create_writers:
  "producer_sequence (((create_writer_r3 dflt) ^^ n) q) = producer_sequence q"
  by (induction n) (simp_all add: create_writer_r3_def)

lemma producer_sequence_setup:
  "producer_sequence (setup_queue_r3 CAPACITY init dflt cs nw) = 1"
  by (simp add: setup_queue_r3_def producer_sequence_create_writers
      producer_sequence_create_readers new_queue_r3_def)

lemma producer_sequence_reachable:
  assumes "run_r3 CAPACITY (setup_queue_r3 CAPACITY init dflt cs nw) tr = Some q"
    and "int (claims_r3 tr) < 2 ^ 63 - 1"
  shows "producer_sequence q = 1 + int (claims_r3 tr)"
  using run_r3_producer_sequence [OF assms(1)] assms(2)
  by (simp add: producer_sequence_setup)


lemma index_from_sequence_2:
  "index_from_sequence 2 0 = Some 0" "index_from_sequence 2 1 = Some 1"
  "index_from_sequence 2 2 = Some 0"
  by (simp_all add: index_from_sequence_def mod_power_of_two_def is_power_of_two_def INT_MIN_def)

lemma setup_queue_two_readers_2:
  "setup_queue 2 dflt 2 (Suc 0) =
     \<lparr>buffer = [dflt, dflt], slot_sequences = [- 1, - 1], next_sequence = 0,
      readers = [new_reader dflt, new_reader dflt], writers = [new_writer dflt]\<rparr>"
proof -
  have u: "unat (2 :: 64 word) = Suc (Suc 0)" by simp
  have n: "(2::nat) = Suc (Suc 0)" by simp
  show ?thesis unfolding setup_queue_eq u
    by (simp add: INITIAL_SEQUENCE_def n)
qed

lemma setup_queue_r3_spsc_2:
  "setup_queue_r3 2 ((!) [a, b]) dflt [c0] (Suc 0) =
     \<lparr>buffer_r3 = [a, b], producer_sequence = 1, available_sequence = 1,
      readers_r3 = [(new_reader dflt)\<lparr>consumer_sequence := c0\<rparr>],
      writers_r3 = [new_writer_r3 dflt]\<rparr>"
proof -
  have u: "[0..<2] = [0, Suc 0]" by (simp add: upt_rec)
  show ?thesis
    by (simp add: setup_queue_r3_def new_queue_r3_def create_reader_r3_def
        create_writer_r3_def u)
qed

section \<open>Concrete executions\<close>

text \<open>
  A queue of capacity 2 with one reader and one writer, on integer payloads.
\<close>

lemma valid_capacity_2: "valid_capacity 2"
  by (simp add: valid_capacity_def static_asserts_def is_power_of_two_def)

lemma setup_queue_spsc_2:
  "setup_queue 2 dflt (Suc 0) (Suc 0) =
     \<lparr>buffer = [dflt, dflt], slot_sequences = [- 1, - 1], next_sequence = 0,
      readers = [new_reader dflt], writers = [new_writer dflt]\<rparr>"
proof -
  have u: "unat (2 :: 64 word) = Suc (Suc 0)" by simp
  show ?thesis unfolding setup_queue_eq u by (simp add: INITIAL_SEQUENCE_def)
qed

lemmas eval_defs = setup_queue_spsc_2 new_reader_def new_writer_def step_defs set_writer_def
  set_reader_def INITIAL_SEQUENCE_def SEQUENCE_MAX_def index_from_sequence_2 wrap64_def

lemma run_write_write:
  "run 2 (setup_queue 2 (0::int) 1 1)
     [WriteCall 0 10, WWait 0, WStore 0, WCommit 0, WriteCall 0 11]
   = Some \<lparr>buffer = [10, 0], slot_sequences = [0, - 1], next_sequence = 2,
       readers = [\<lparr>consumer_sequence = - 1, rpc = R_idle, next_read_sequence = 0,
           read_index = 0, rvalue = 0\<rparr>],
       writers = [\<lparr>cached_min_consumer_sequence = - 1, wpc = W_wait, wvalue = 11,
           claimed_sequence = 1, write_index = 0, min_sequence = 0\<rparr>]\<rparr>"
  by (simp add: eval_defs)

lemma run_two_rounds:
  "run 2 (setup_queue 2 (0::int) 1 1)
     [WriteCall 0 10, WWait 0, WStore 0, WCommit 0, ReadIntoCall 0 99, RWait 0, RCopy 0,
      RUpdate 0, WriteCall 0 11, WWait 0, WStore 0, WCommit 0, ReadCall 0, RWait 0, RCopy 0,
      RUpdate 0]
   = Some \<lparr>buffer = [10, 11], slot_sequences = [0, 1], next_sequence = 2,
       readers = [\<lparr>consumer_sequence = 1, rpc = R_idle, next_read_sequence = 1,
           read_index = 1, rvalue = 11\<rparr>],
       writers = [\<lparr>cached_min_consumer_sequence = - 1, wpc = W_idle, wvalue = 11,
           claimed_sequence = 1, write_index = 1, min_sequence = 0\<rparr>]\<rparr>"
  by (simp add: eval_defs)

lemma run_blocked_writer:
  "run 2 (setup_queue 2 (0::int) 1 1)
       [WriteCall 0 10, WWait 0, WStore 0, WCommit 0, WriteCall 0 11, WWait 0, WStore 0,
        WCommit 0, ReadCall 0, RWait 0, RCopy 0, RUpdate 0, WriteCall 0 12, WWait 0, WLoad 0,
        WWait 0]
   = Some \<lparr>buffer = [10, 11], slot_sequences = [0, 1], next_sequence = 3,
       readers = [\<lparr>consumer_sequence = 0, rpc = R_idle, next_read_sequence = 0,
           read_index = 0, rvalue = 10\<rparr>],
       writers = [\<lparr>cached_min_consumer_sequence = 0, wpc = W_store, wvalue = 12,
           claimed_sequence = 2, write_index = 0,
           min_sequence = 9223372036854775807\<rparr>]\<rparr>"
  by (simp add: eval_defs)

lemma run_second_lap:
  "run 2 (setup_queue 2 (0::int) 1 1)
       [WriteCall 0 10, WWait 0, WStore 0, WCommit 0, WriteCall 0 11, WWait 0, WStore 0,
        WCommit 0, ReadCall 0, RWait 0, RCopy 0, RUpdate 0, WriteCall 0 12, WWait 0, WLoad 0,
        WWait 0, WStore 0, WCommit 0]
   = Some \<lparr>buffer = [12, 11], slot_sequences = [2, 1], next_sequence = 3,
       readers = [\<lparr>consumer_sequence = 0, rpc = R_idle, next_read_sequence = 0,
           read_index = 0, rvalue = 10\<rparr>],
       writers = [\<lparr>cached_min_consumer_sequence = 0, wpc = W_idle, wvalue = 12,
           claimed_sequence = 2, write_index = 0,
           min_sequence = 9223372036854775807\<rparr>]\<rparr>"
  by (simp add: eval_defs)

lemma run_one_round:
  "run 2 (setup_queue 2 (0::int) 1 1)
     [WriteCall 0 10, WWait 0, WStore 0, WCommit 0, ReadCall 0, RWait 0, RCopy 0, RUpdate 0]
   = Some \<lparr>buffer = [10, 0], slot_sequences = [0, - 1], next_sequence = 1,
       readers = [\<lparr>consumer_sequence = 0, rpc = R_idle, next_read_sequence = 0,
           read_index = 0, rvalue = 10\<rparr>],
       writers = [\<lparr>cached_min_consumer_sequence = - 1, wpc = W_idle, wvalue = 10,
           claimed_sequence = 0, write_index = 0, min_sequence = 0\<rparr>]\<rparr>"
  by (simp add: eval_defs)

lemma run_one_write:
  "run 2 (setup_queue 2 (0::int) 1 1) [WriteCall 0 10, WWait 0, WStore 0, WCommit 0]
   = Some \<lparr>buffer = [10, 0], slot_sequences = [0, - 1], next_sequence = 1,
       readers = [\<lparr>consumer_sequence = - 1, rpc = R_idle, next_read_sequence = 0,
           read_index = 0, rvalue = 0\<rparr>],
       writers = [\<lparr>cached_min_consumer_sequence = - 1, wpc = W_idle, wvalue = 10,
           claimed_sequence = 0, write_index = 0, min_sequence = 0\<rparr>]\<rparr>"
  by (simp add: eval_defs)

lemma run_r3_one_claim:
  "run_r3 2 (setup_queue_r3 2 ((!) [5, 6]) (0::int) [0] 1)
     [Write_r3 0 10, Writer_r3 0, Writer_r3 0, Writer_r3 0]
   = Some \<lparr>buffer_r3 = [5, 10], producer_sequence = 2, available_sequence = 1,
       readers_r3 = [\<lparr>consumer_sequence = 0, rpc = R_idle, next_read_sequence = 0,
           read_index = 0, rvalue = 0\<rparr>],
       writers_r3 = [\<lparr>min_consumer_sequence_r3 = 0, wpc_r3 = W3_previous, wvalue_r3 = 10,
           claimed_sequence_r3 = 1, write_index_r3 = 1, min_sequence_r3 = 0\<rparr>]\<rparr>"
  by (simp add: setup_queue_r3_spsc_2 fetch_add_r3_def writer_step_r3_def
      wait_for_no_wrap_r3_def store_payload_r3_def wait_for_previous_r3_def
      set_writer_r3_def new_reader_def new_writer_r3_def index_from_sequence_2 wrap64_def)

section \<open>The claims about the queue\<close>

lemma le_foldl_min:
  "c \<le> foldl (\<lambda>m r. min m (f r)) a xs \<longleftrightarrow> c \<le> a \<and> (\<forall>x \<in> set xs. c \<le> f x)"
  for c a :: int
  by (induction xs arbitrary: a) auto

lemma le_get_min_consumer_sequence:
  "c \<le> get_min_consumer_sequence q \<longleftrightarrow>
     c \<le> SEQUENCE_MAX \<and> (\<forall>r < length (readers q). c \<le> consumer_sequence (readers q ! r))"
  by (auto simp: get_min_consumer_sequence_def le_foldl_min all_set_conv_all_nth)

text \<open>
  C5, as stated, on revision 3 (lines 625 and 687): after construction the counter
  \<^verbatim>\<open>_producer_sequence\<close> is 1, not 0, and the first claim receives 1.
\<close>

theorem first_claim_r3_receives_1:
  "producer_sequence (setup_queue_r3 2 ((!) [5, 6]) (0::int) [0] 1) = 1
   \<and> step_r3 2 (Write_r3 0 10) (setup_queue_r3 2 ((!) [5, 6]) (0::int) [0] 1)
     = Some \<lparr>buffer_r3 = [5, 6], producer_sequence = 2, available_sequence = 1,
         readers_r3 = [\<lparr>consumer_sequence = 0, rpc = R_idle, next_read_sequence = 0,
             read_index = 0, rvalue = 0\<rparr>],
         writers_r3 = [\<lparr>min_consumer_sequence_r3 = 0, wpc_r3 = W3_wait, wvalue_r3 = 10,
             claimed_sequence_r3 = 1, write_index_r3 = 0, min_sequence_r3 = 0\<rparr>]\<rparr>"
  by (simp add: setup_queue_r3_spsc_2 fetch_add_r3_def set_writer_r3_def new_reader_def
      new_writer_r3_def wrap64_def)

text \<open>
  C5, amended. In every reachable state the counter from which writers claim is its
  initial value plus the number of claims made so far, published or not, and a claim
  made in this state receives the value of the counter. In revision 2
  (\<^verbatim>\<open>_next_sequence{0}\<close>) the counter is 0 after construction, so it is the number of
  claims and the first claim receives 0. In revision 3 (\<^verbatim>\<open>_producer_sequence{1}\<close>) it is
  1 after construction, so it is one more than the number of claims and the first
  claim receives 1.
\<close>

theorem claim_counter_counts_claims:
  assumes "valid_capacity CAPACITY"
    and "run CAPACITY (setup_queue CAPACITY dflt nr nw) tr = Some q"
    and "int (length (claim_order tr)) < 2 ^ 63"
    and "run_r3 CAPACITY3 (setup_queue_r3 CAPACITY3 init dflt3 cs nw3) tr3 = Some q3"
    and "int (claims_r3 tr3) < 2 ^ 63 - 1"
  shows "next_sequence q = int (length (claim_order tr))
    \<and> next_sequence (setup_queue CAPACITY dflt nr nw) = 0
    \<and> (\<forall>w v q'. step CAPACITY (WriteCall w v) q = Some q' \<longrightarrow>
          claimed_sequence (writers q' ! w) = int (length (claim_order tr)))
    \<and> producer_sequence q3 = 1 + int (claims_r3 tr3)
    \<and> producer_sequence (setup_queue_r3 CAPACITY3 init dflt3 cs nw3) = 1
    \<and> (\<forall>w v q'. step_r3 CAPACITY3 (Write_r3 w v) q3 = Some q' \<longrightarrow>
          claimed_sequence_r3 (writers_r3 q' ! w) = 1 + int (claims_r3 tr3))"
proof -
  have "inv_next (claim_order tr) q"
    using reachable_invariant [OF assms(1-3)] by (rule invariantD)
  then have n: "next_sequence q = int (length (claim_order tr))"
    by (simp add: inv_next_def)
  have c: "claimed_sequence (writers q' ! w) = next_sequence q"
    if "step CAPACITY (WriteCall w v) q = Some q'" for w v q'
    using that by (auto simp: fetch_add_def split: if_splits)
  have p: "producer_sequence q3 = 1 + int (claims_r3 tr3)"
    using assms(4,5) by (rule producer_sequence_reachable)
  have c3: "claimed_sequence_r3 (writers_r3 q' ! w) = producer_sequence q3"
    if "step_r3 CAPACITY3 (Write_r3 w v) q3 = Some q'" for w v q'
    using that by (simp add: fetch_add_r3_claims(1))
  from n c p c3 show ?thesis
    by (simp add: setup_queue_eq producer_sequence_setup)
qed

theorem claim_counter_counts_claims_witness:
  "valid_capacity 2
   \<and> (\<exists>q. run 2 (setup_queue 2 (0::int) 1 1)
              [WriteCall 0 10, WWait 0, WStore 0, WCommit 0, WriteCall 0 11] = Some q
          \<and> next_sequence q = 2)
   \<and> int (length (claim_order [WriteCall 0 (10::int), WWait 0, WStore 0, WCommit 0,
          WriteCall 0 11])) = 2
   \<and> (\<exists>q. run_r3 2 (setup_queue_r3 2 ((!) [5, 6]) (0::int) [0] 1)
              [Write_r3 0 10, Writer_r3 0, Writer_r3 0, Writer_r3 0] = Some q
          \<and> producer_sequence q = 2 \<and> available_sequence q = 1)
   \<and> claims_r3 [Write_r3 0 (10::int), Writer_r3 0, Writer_r3 0, Writer_r3 0] = 1"
proof -
  have b: "int (length (claim_order [WriteCall 0 (10::int), WWait 0, WStore 0, WCommit 0,
      WriteCall 0 11])) < 2 ^ 63"
    by (simp add: claim_order_def)
  have b3: "int (claims_r3 [Write_r3 0 (10::int), Writer_r3 0, Writer_r3 0, Writer_r3 0])
      < 2 ^ 63 - 1"
    by simp
  from claim_counter_counts_claims [OF valid_capacity_2 run_write_write b run_r3_one_claim b3]
    valid_capacity_2 run_write_write run_r3_one_claim
  show ?thesis by (simp add: claim_order_def)
qed

text \<open>
  C6. In every reachable state the cached minimum of every writer is at most
  \<^verbatim>\<open>get_min_consumer_sequence()\<close> evaluated in that state (the minimum over all readers,
  the largest sequence when there is none). A step that changes the cache of writer
  \<open>w\<close> is a step of \<open>w\<close> inside \<^verbatim>\<open>wait_for_no_wrap\<close>: its test or the scan of the readers
  it calls.
\<close>

theorem cached_min_is_lower_bound:
  assumes "valid_capacity CAPACITY"
    and "run CAPACITY (setup_queue CAPACITY dflt nr nw) tr = Some q"
    and "int (length (claim_order tr)) < 2 ^ 63"
    and "w < nw"
  shows "cached_min_consumer_sequence (writers q ! w) \<le> get_min_consumer_sequence q
    \<and> (\<forall>e q'. step CAPACITY e q = Some q'
          \<and> cached_min_consumer_sequence (writers q' ! w)
              \<noteq> cached_min_consumer_sequence (writers q ! w)
          \<longrightarrow> e = WWait w \<or> e = WLoad w)"
proof -
  have w: "w < length (writers q)"
    using run_lengths(2) [OF assms(2)] assms(4) by (simp add: setup_lengths)
  have "inv_cache q"
    using reachable_invariant [OF assms(1-3)] by (rule invariantD)
  with w have "cached_min_consumer_sequence (writers q ! w) \<le> get_min_consumer_sequence q"
    by (simp add: le_get_min_consumer_sequence inv_cache_def)
  with w show ?thesis by (blast dest: step_cached)
qed

theorem cached_min_is_lower_bound_witness:
  "valid_capacity 2
   \<and> (\<exists>q. run 2 (setup_queue 2 (0::int) 1 1)
              [WriteCall 0 10, WWait 0, WStore 0, WCommit 0, ReadCall 0, RWait 0, RCopy 0,
               RUpdate 0] = Some q
          \<and> cached_min_consumer_sequence (writers q ! 0) = - 1
          \<and> get_min_consumer_sequence q = 0
          \<and> cached_min_consumer_sequence (writers q ! 0) \<le> get_min_consumer_sequence q)"
proof -
  let ?tr = "[WriteCall 0 (10::int), WWait 0, WStore 0, WCommit 0, ReadCall 0, RWait 0, RCopy 0,
      RUpdate 0]"
  have b: "int (length (claim_order ?tr)) < 2 ^ 63" by (simp add: claim_order_def)
  have w: "(0::nat) < 1" by simp
  from cached_min_is_lower_bound [OF valid_capacity_2 run_one_round b w]
    valid_capacity_2 run_one_round
  show ?thesis by (simp add: get_min_consumer_sequence_def SEQUENCE_MAX_def)
qed

text \<open>
  C2. In every reachable state, when a writer is about to store its payload for the
  claimed sequence \<open>s\<close> (the step \<open>WStore\<close> is enabled): the slot is \<open>s mod CAPACITY\<close>;
  the minimum it has cached, an earlier observation of the readers, is at least
  \<open>s - CAPACITY\<close>; \<open>s\<close> minus the present minimum consumer sequence is at most
  \<open>CAPACITY\<close>; and the sequence last published to that slot has been consumed by every
  reader.
\<close>

theorem payload_store_respects_backpressure:
  assumes "valid_capacity CAPACITY"
    and "run CAPACITY (setup_queue CAPACITY dflt nr nw) tr = Some q"
    and "int (length (claim_order tr)) < 2 ^ 63"
    and "step CAPACITY (WStore w) q = Some q'"
  shows "int (write_index (writers q ! w)) = claimed_sequence (writers q ! w) mod uint CAPACITY
    \<and> claimed_sequence (writers q ! w) - uint CAPACITY
        \<le> cached_min_consumer_sequence (writers q ! w)
    \<and> claimed_sequence (writers q ! w) - get_min_consumer_sequence q \<le> uint CAPACITY
    \<and> (\<forall>r < length (readers q).
          slot_sequences q ! write_index (writers q ! w) \<le> consumer_sequence (readers q ! r))"
proof -
  define N where "N = unat CAPACITY"
  have iN: "uint CAPACITY = int N" by (simp add: N_def)
  let ?W = "writers q ! w"
  note I = invariantD [OF reachable_invariant [OF assms(1-3)], folded N_def]
  from assms(4) have w: "w < length (writers q)" "wpc ?W = W_store"
    by (auto simp: store_payload_def split: if_splits)
  have N: "0 < N" using I(1) by (simp add: inv_shape_def)
  have wi: "write_index ?W = nat (claimed_sequence ?W mod int N)" "write_index ?W < N"
    and lo: "claimed_sequence ?W - int N \<le> cached_min_consumer_sequence ?W"
    using I(7) w by (auto simp: inv_granted_def)
  have "0 \<le> claimed_sequence ?W mod int N" using N by simp
  with wi(1) have wm: "int (write_index ?W) = claimed_sequence ?W mod int N" by simp
  have "cached_min_consumer_sequence ?W \<le> get_min_consumer_sequence q"
    using I(5) w by (simp add: le_get_min_consumer_sequence inv_cache_def)
  with lo have gm: "claimed_sequence ?W - get_min_consumer_sequence q \<le> int N" by linarith
  have old: "slot_sequences q ! write_index ?W \<le> consumer_sequence (readers q ! r)"
    if r: "r < length (readers q)" for r
    using w(2) by (intro granted_slot_consumed [OF I(1,3,4,5,7,10,11,16) w(1) _ r]) simp
  from wm lo gm old show ?thesis unfolding iN by blast
qed

theorem payload_store_respects_backpressure_witness:
  "valid_capacity 2
   \<and> (\<exists>q q'. run 2 (setup_queue 2 (0::int) 1 1)
              [WriteCall 0 10, WWait 0, WStore 0, WCommit 0, WriteCall 0 11, WWait 0, WStore 0,
               WCommit 0, ReadCall 0, RWait 0, RCopy 0, RUpdate 0, WriteCall 0 12, WWait 0,
               WLoad 0, WWait 0] = Some q
          \<and> step 2 (WStore 0) q = Some q'
          \<and> claimed_sequence (writers q ! 0) = 2 \<and> get_min_consumer_sequence q = 0
          \<and> slot_sequences q ! write_index (writers q ! 0) = 0)"
proof -
  let ?tr = "[WriteCall 0 (10::int), WWait 0, WStore 0, WCommit 0, WriteCall 0 11, WWait 0,
      WStore 0, WCommit 0, ReadCall 0, RWait 0, RCopy 0, RUpdate 0, WriteCall 0 12, WWait 0,
      WLoad 0, WWait 0]"
  let ?q = "\<lparr>buffer = [10, 11], slot_sequences = [0, 1], next_sequence = 3,
       readers = [\<lparr>consumer_sequence = 0, rpc = R_idle, next_read_sequence = 0,
           read_index = 0, rvalue = (10::int)\<rparr>],
       writers = [\<lparr>cached_min_consumer_sequence = 0, wpc = W_store, wvalue = 12,
           claimed_sequence = 2, write_index = 0,
           min_sequence = 9223372036854775807\<rparr>]\<rparr>"
  have b: "int (length (claim_order ?tr)) < 2 ^ 63" by (simp add: claim_order_def)
  have st: "step 2 (WStore 0) ?q = Some (set_writer 0 ((writers ?q ! 0)\<lparr>wpc := W_commit\<rparr>)
      (?q\<lparr>buffer := (buffer ?q)[0 := 12]\<rparr>))"
    by (simp add: store_payload_def)
  from payload_store_respects_backpressure [OF valid_capacity_2 run_blocked_writer b st]
    valid_capacity_2 run_blocked_writer st
  show ?thesis by (simp add: get_min_consumer_sequence_def SEQUENCE_MAX_def)
qed

lemma completed_read_value:
  assumes "valid_capacity CAPACITY"
    and "run CAPACITY (setup_queue CAPACITY dflt nr nw) tr = Some q"
    and "int (length (claim_order tr)) < 2 ^ 63"
    and "r < nr" and "rpc (readers q ! r) = R_idle" and "completed_reads r tr = Suc k"
  shows "k < length (claim_order tr)" and "rvalue (readers q ! r) = claim_order tr ! k"
proof -
  note I = invariantD [OF reachable_invariant [OF assms(1-3)]]
  have r: "r < length (readers q)"
    using run_lengths(1) [OF assms(2)] assms(4) by (simp add: setup_lengths)
  have "consumer_sequence (readers q ! r) = int (completed_reads r tr) - 1"
    using reachable_trace_inv [OF assms(1-3)] r by (simp add: trace_inv_def)
  then have cs: "consumer_sequence (readers q ! r) = int k" using assms(6) by simp
  have "consumer_sequence (readers q ! r) < next_sequence q"
    using I(3) r by (auto simp: inv_reader_def)
  then show "k < length (claim_order tr)"
    using I(2) cs by (simp add: inv_next_def)
  show "rvalue (readers q ! r) = claim_order tr ! k"
    using I(15) r assms(5) cs by (auto simp: inv_result_def)
qed

lemma run_read_events:
  "run CAPACITY q (read_events r dest) = Some q' \<longleftrightarrow>
     (\<exists>q1 q2 q3. get_next_read_sequence CAPACITY r dest q = Some q1
        \<and> wait_for_data r q1 = Some q2 \<and> copy_payload r q2 = Some q3
        \<and> update_consumer_sequence r q3 = Some q')"
  by (cases dest) (auto simp: read_events_def split: option.splits)

lemma read_is_run:
  assumes "read CAPACITY r dest q = Some (v, q')"
  shows "run CAPACITY q (read_events r dest) = Some q' \<and> v = rvalue (readers q' ! r)"
  using assms unfolding run_read_events
  by (auto simp: read_def split: option.splits if_splits)

lemma published_sequence_in_slot:
  assumes "invariant N hist q" and r: "r < length (readers q)"
    and s: "s = consumer_sequence (readers q ! r) + 1" "s < next_sequence q" "s \<notin> in_flight q"
  shows "slot_sequences q ! nat (s mod int N) = s"
proof -
  note I = invariantD [OF assms(1)]
  let ?c = "consumer_sequence (readers q ! r)" and ?t = "slot_sequences q ! nat (s mod int N)"
  have N: "0 < N" using I(1) by (simp add: inv_shape_def)
  have c: "- 1 \<le> ?c" using I(3) r by (auto simp: inv_reader_def)
  have i: "nat (s mod int N) < N" using N by (simp add: nat_less_iff)
  have rs: "readers q \<noteq> []" using r by auto
  have ge: "s \<le> ?t"
    using I(17) rs s c by (auto simp: inv_available_def)
  have "?t - int N \<le> ?c"
    using I(16) i r unfolding inv_backpressure_def by blast
  then have hi: "?t \<le> ?c + int N" by linarith
  have "?t \<noteq> - 1" using ge s(1) c by linarith
  then have "nat (?t mod int N) = nat (s mod int N)"
    using I(4) i by (auto simp: inv_slots_def)
  with N have "?t mod int N = s mod int N" by (rule nat_mod_eq)
  moreover have "?c < ?t" "?c < s" "s \<le> ?c + int N" using ge s(1) N by linarith+
  ultimately show ?thesis
    using hi by (auto intro: mod_window [of ?c _ "int N"])
qed

lemma read_returns:
  assumes "valid_capacity CAPACITY"
    and "run CAPACITY (setup_queue CAPACITY dflt nr nw) tr = Some q"
    and "int (length (claim_order tr)) < 2 ^ 63"
    and "r < nr" and "rpc (readers q ! r) = R_idle"
    and "completed_reads r tr < length (claim_order tr)"
    and "int (completed_reads r tr) \<notin> in_flight q"
  shows "\<exists>q'. read CAPACITY r dest q = Some (claim_order tr ! completed_reads r tr, q')"
proof -
  define N where "N = unat CAPACITY"
  define k where "k = completed_reads r tr"
  let ?R = "readers q ! r"
  note inv = reachable_invariant [OF assms(1-3), folded N_def]
  note I = invariantD [OF inv]
  have r: "r < length (readers q)"
    using run_lengths(1) [OF assms(2)] assms(4) by (simp add: setup_lengths)
  have cs: "consumer_sequence ?R = int k - 1"
    using reachable_trace_inv [OF assms(1-3)] r by (simp add: trace_inv_def k_def)
  have nx: "next_sequence q = int (length (claim_order tr))"
    using I(2) by (simp add: inv_next_def)
  have kn: "int k < next_sequence q" using assms(6) nx by (simp add: k_def)
  have N: "0 < N" using I(1) by (simp add: inv_shape_def)
  have len: "length (slot_sequences q) = N" "length (buffer q) = N"
    using I(1) by (simp_all add: inv_shape_def)
  have wr: "wrap64 (consumer_sequence ?R + 1) = int k"
    unfolding cs using kn nx assms(3) by (intro wrap64_id [THEN trans]; simp)
  have ix: "index_from_sequence CAPACITY (int k) = Some (nat (int k mod int N))"
    using valid_capacity_facts(4) [OF assms(1)] by (simp add: N_def)
  have i: "nat (int k mod int N) < N" using N by (simp add: nat_less_iff)
  have st: "slot_sequences q ! nat (int k mod int N) = int k"
    using assms(7) kn cs
    by (intro published_sequence_in_slot [OF inv r]) (simp_all add: k_def)
  define q1 where "q1 = set_reader r (?R\<lparr>rpc := R_wait, next_read_sequence := int k,
      read_index := nat (int k mod int N),
      rvalue := (case dest of None \<Rightarrow> rvalue ?R | Some d \<Rightarrow> d)\<rparr>) q"
  define q2 where "q2 = set_reader r ((readers q1 ! r)\<lparr>rpc := R_copy\<rparr>) q1"
  define q3 where "q3 = set_reader r
      ((readers q2 ! r)\<lparr>rpc := R_update, rvalue := buffer q2 ! read_index (readers q2 ! r)\<rparr>) q2"
  define q4 where "q4 = set_reader r ((readers q3 ! r)\<lparr>rpc := R_idle,
      consumer_sequence := next_read_sequence (readers q3 ! r)\<rparr>) q3"
  have s1: "get_next_read_sequence CAPACITY r dest q = Some q1"
    using r assms(5) by (simp add: get_next_read_sequence_def wr ix q1_def)
  have s2: "wait_for_data r q1 = Some q2"
    using r i st len by (simp add: wait_for_data_def q1_def q2_def)
  have pc2: "rpc (readers q2 ! r) = R_copy"
    using r by (simp add: q2_def q1_def)
  have s3: "copy_payload r q2 = Some q3"
    using r i len by (simp add: copy_payload_def q1_def q2_def q3_def)
  have s4: "update_consumer_sequence r q3 = Some q4"
    using r by (simp add: update_consumer_sequence_def q1_def q2_def q3_def q4_def)
  have rd: "read CAPACITY r dest q = Some (rvalue (readers q4 ! r), q4)"
    by (simp add: read_def s1 s2 pc2 s3 s4)
  have rn: "run CAPACITY q (read_events r dest) = Some q4"
    unfolding run_read_events using s1 s2 s3 s4 by blast
  let ?tr = "tr @ read_events r dest"
  have whole: "run CAPACITY (setup_queue CAPACITY dflt nr nw) ?tr = Some q4"
    using assms(2) rn by (simp add: run_append)
  have co: "claim_order ?tr = claim_order tr"
    by (cases dest) (simp_all add: claim_order_def read_events_def)
  have b: "int (length (claim_order ?tr)) < 2 ^ 63" using assms(3) co by simp
  have idle: "rpc (readers q4 ! r) = R_idle"
    using r by (simp add: q1_def q2_def q3_def q4_def)
  have cr: "completed_reads r ?tr = Suc k"
    by (cases dest) (simp_all add: completed_reads_def read_events_def k_def)
  have "rvalue (readers q4 ! r) = claim_order ?tr ! k"
    using whole b assms(4) idle cr by (rule completed_read_value(2) [OF assms(1)])
  with rd co show ?thesis by (simp add: k_def)
qed

text \<open>
  C1. In every execution from a queue set up before any traffic (a capacity that
  instantiates, fewer than \<open>2 ^ 63\<close> writes claimed), at a moment when reader \<open>r\<close> is
  between two calls:
  \<^item> if \<open>r\<close> has completed \<open>k + 1\<close> reads, the value of the last one is the \<open>k\<close>-th value
    in claim order, counting from 0: what \<^verbatim>\<open>read()\<close> returned, or what \<^verbatim>\<open>read(output)\<close>
    left in the destination;
  \<^item> if \<open>r\<close> has completed \<open>k\<close> reads and the \<open>k\<close>-th write has been claimed and is
    published, the next call, run to its end, returns that value: \<^verbatim>\<open>read()\<close> for
    \<open>dest = None\<close>, and \<^verbatim>\<open>read(output)\<close> for \<open>dest = Some d\<close> whatever the destination \<open>d\<close>
    held before.
  With one writer the claim order is the order of its writes. The theorem holds for any
  number of readers and writers and for every schedule; one reader and one writer, with
  reads interleaved so that no write blocks, is an instance.
\<close>

theorem kth_read_returns_kth_write:
  assumes "valid_capacity CAPACITY"
    and "run CAPACITY (setup_queue CAPACITY dflt nr nw) tr = Some q"
    and "int (length (claim_order tr)) < 2 ^ 63"
    and "r < nr" and "rpc (readers q ! r) = R_idle"
  shows "(\<forall>k. completed_reads r tr = Suc k \<longrightarrow>
            k < length (claim_order tr) \<and> rvalue (readers q ! r) = claim_order tr ! k)
    \<and> (\<forall>k dest. completed_reads r tr = k \<and> k < length (claim_order tr)
            \<and> int k \<notin> in_flight q \<longrightarrow>
          (\<exists>q'. read CAPACITY r dest q = Some (claim_order tr ! k, q')))"
  using completed_read_value [OF assms] read_returns [OF assms] by blast

theorem kth_read_returns_kth_write_witness:
  "valid_capacity 2
   \<and> (\<exists>q. run 2 (setup_queue 2 (0::int) 1 1)
              [WriteCall 0 10, WWait 0, WStore 0, WCommit 0, ReadIntoCall 0 99, RWait 0,
               RCopy 0, RUpdate 0, WriteCall 0 11, WWait 0, WStore 0, WCommit 0, ReadCall 0,
               RWait 0, RCopy 0, RUpdate 0] = Some q
          \<and> rpc (readers q ! 0) = R_idle \<and> rvalue (readers q ! 0) = 11)
   \<and> (\<exists>q q'. run 2 (setup_queue 2 (0::int) 1 1)
              [WriteCall 0 10, WWait 0, WStore 0, WCommit 0] = Some q
          \<and> rpc (readers q ! 0) = R_idle \<and> in_flight q = {}
          \<and> read 2 0 (Some 99) q = Some (10, q'))"
proof -
  let ?tr = "[WriteCall 0 (10::int), WWait 0, WStore 0, WCommit 0, ReadIntoCall 0 99, RWait 0,
          RCopy 0, RUpdate 0, WriteCall 0 11, WWait 0, WStore 0, WCommit 0, ReadCall 0,
          RWait 0, RCopy 0, RUpdate 0]"
  let ?tr1 = "[WriteCall 0 (10::int), WWait 0, WStore 0, WCommit 0]"
  let ?q1 = "\<lparr>buffer = [10, 0], slot_sequences = [0, - 1], next_sequence = 1,
       readers = [\<lparr>consumer_sequence = - 1, rpc = R_idle, next_read_sequence = 0,
           read_index = 0, rvalue = (0::int)\<rparr>],
       writers = [\<lparr>cached_min_consumer_sequence = - 1, wpc = W_idle, wvalue = 10,
           claimed_sequence = 0, write_index = 0, min_sequence = 0\<rparr>]\<rparr>"
  have b: "int (length (claim_order ?tr)) < 2 ^ 63" by (simp add: claim_order_def)
  have b1: "int (length (claim_order ?tr1)) < 2 ^ 63" by (simp add: claim_order_def)
  have r: "(0::nat) < 1" by simp
  have i: "rpc (readers ?q1 ! 0) = R_idle" by simp
  have f: "in_flight ?q1 = {}" by (simp add: in_flight_def)
  have "rvalue (readers q ! 0) = 11"
    if "run 2 (setup_queue 2 (0::int) 1 1) ?tr = Some q" for q
  proof -
    from that run_two_rounds have idle: "rpc (readers q ! 0) = R_idle" by auto
    from kth_read_returns_kth_write [OF valid_capacity_2 that b r idle]
    show ?thesis by (simp add: claim_order_def completed_reads_def)
  qed
  moreover from kth_read_returns_kth_write [OF valid_capacity_2 run_one_write b1 r i] f
  have "\<exists>q'. read 2 0 (Some 99) ?q1 = Some (10, q')"
    by (simp add: claim_order_def completed_reads_def)
  ultimately show ?thesis
    using valid_capacity_2 run_two_rounds run_one_write f by auto
qed

lemma wait_for_data_exact:
  assumes "wait_for_data r s = Some s'"
  shows "(rpc (readers s' ! r) = R_copy) =
      (slot_sequences s ! read_index (readers s ! r) = next_read_sequence (readers s ! r))"
    and "slot_sequences s ! read_index (readers s ! r) \<noteq> next_read_sequence (readers s ! r)
      \<Longrightarrow> s' = s"
  using assms by (auto simp: wait_for_data_def split: if_splits)

lemma read_needs_exact_stamp:
  assumes "valid_capacity CAPACITY"
    and r: "r < length (readers s)" and idle: "rpc (readers s ! r) = R_idle"
    and c: "- 1 \<le> consumer_sequence (readers s ! r)"
      "consumer_sequence (readers s ! r) < 2 ^ 63 - 1"
    and len: "length (slot_sequences s) = unat CAPACITY" "length (buffer s) = unat CAPACITY"
  shows "(\<exists>v s'. read CAPACITY r dest s = Some (v, s')) =
      (slot_sequences s ! nat ((consumer_sequence (readers s ! r) + 1) mod uint CAPACITY)
         = consumer_sequence (readers s ! r) + 1)"
    and "read CAPACITY r dest s = Some (v, s') \<Longrightarrow>
      consumer_sequence (readers s' ! r) = consumer_sequence (readers s ! r) + 1"
proof -
  define N where "N = unat CAPACITY"
  have iN: "uint CAPACITY = int N" by (simp add: N_def)
  let ?R = "readers s ! r"
  define n where "n = consumer_sequence ?R + 1"
  have N: "0 < N" using valid_capacity_facts(1) [OF assms(1)] by (simp add: N_def)
  have wr: "wrap64 (consumer_sequence ?R + 1) = n"
    unfolding n_def using c by (intro wrap64_id; simp)
  have ix: "index_from_sequence CAPACITY n = Some (nat (n mod int N))"
    using valid_capacity_facts(4) [OF assms(1)] by (simp add: N_def)
  have i: "nat (n mod int N) < N" using N by (simp add: nat_less_iff)
  define q1 where "q1 = set_reader r (?R\<lparr>rpc := R_wait, next_read_sequence := n,
      read_index := nat (n mod int N),
      rvalue := (case dest of None \<Rightarrow> rvalue ?R | Some d \<Rightarrow> d)\<rparr>) s"
  have s1: "get_next_read_sequence CAPACITY r dest s = Some q1"
    using r idle by (simp add: get_next_read_sequence_def wr ix q1_def)
  show "(\<exists>v s'. read CAPACITY r dest s = Some (v, s')) =
      (slot_sequences s ! nat ((consumer_sequence ?R + 1) mod uint CAPACITY)
         = consumer_sequence ?R + 1)"
  proof (cases "slot_sequences s ! nat (n mod int N) = n")
    case True
    define q2 where "q2 = set_reader r ((readers q1 ! r)\<lparr>rpc := R_copy\<rparr>) q1"
    define q3 where "q3 = set_reader r
      ((readers q2 ! r)\<lparr>rpc := R_update, rvalue := buffer q2 ! read_index (readers q2 ! r)\<rparr>) q2"
    define q4 where "q4 = set_reader r ((readers q3 ! r)\<lparr>rpc := R_idle,
      consumer_sequence := next_read_sequence (readers q3 ! r)\<rparr>) q3"
    have s2: "wait_for_data r q1 = Some q2"
      using r i True len by (simp add: wait_for_data_def q1_def q2_def N_def)
    have pc2: "rpc (readers q2 ! r) = R_copy"
      using r by (simp add: q2_def q1_def)
    have s3: "copy_payload r q2 = Some q3"
      using r i len by (simp add: copy_payload_def q1_def q2_def q3_def N_def)
    have s4: "update_consumer_sequence r q3 = Some q4"
      using r by (simp add: update_consumer_sequence_def q1_def q2_def q3_def q4_def)
    have "read CAPACITY r dest s = Some (rvalue (readers q4 ! r), q4)"
      by (simp add: read_def s1 s2 pc2 s3 s4)
    with True show ?thesis unfolding iN n_def by blast
  next
    case False
    have s2: "wait_for_data r q1 = Some q1"
      using r i False len by (simp add: wait_for_data_def q1_def N_def)
    have pc: "rpc (readers q1 ! r) = R_wait" using r by (simp add: q1_def)
    have "read CAPACITY r dest s = None"
      by (simp add: read_def s1 s2 pc)
    with False show ?thesis unfolding iN n_def by simp
  qed
  show "consumer_sequence (readers s' ! r) = consumer_sequence ?R + 1"
    if rd: "read CAPACITY r dest s = Some (v, s')"
  proof -
    from rd s1 obtain q2 q3 where s2: "wait_for_data r q1 = Some q2"
      and s3: "copy_payload r q2 = Some q3" and s4: "update_consumer_sequence r q3 = Some s'"
      by (auto simp: read_def split: option.splits if_splits)
    have l1: "r < length (readers q1)" using r by (simp add: q1_def)
    have n1: "next_read_sequence (readers q1 ! r) = n" using r by (simp add: q1_def)
    from s2 l1 n1 have l2: "r < length (readers q2)"
      and n2: "next_read_sequence (readers q2 ! r) = n"
      by (auto simp: wait_for_data_def split: if_splits)
    from s3 l2 n2 have l3: "r < length (readers q3)"
      and n3: "next_read_sequence (readers q3 ! r) = n"
      by (auto simp: copy_payload_def split: if_splits)
    from s4 l3 n3 show ?thesis
      by (auto simp: update_consumer_sequence_def n_def split: if_splits)
  qed
qed

text \<open>
  C3. In any state whatever, reachable or not, a turn of the loop of \<^verbatim>\<open>wait_for_data\<close>
  leaves the loop exactly when the stamp of the awaited slot is equal to the awaited
  sequence, and otherwise changes nothing: a stamp that is larger keeps the reader
  waiting. From any state in which reader \<open>r\<close> is idle with consumer sequence \<open>c\<close>, a call
  of \<^verbatim>\<open>read\<close> that runs while no other thread moves returns exactly when the stamp of
  slot \<open>(c + 1) mod CAPACITY\<close> is \<open>c + 1\<close>, and it leaves the consumer sequence at
  \<open>c + 1\<close>.

  In every reachable state, for a reader \<open>r\<close> with consumer sequence \<open>c\<close>:
  \<^verbatim>\<open>wait_for_data\<close> leaves its loop exactly when the stamp of slot
  \<open>(c + 1) mod CAPACITY\<close> equals \<open>c + 1\<close>; the store that ends the read sets the consumer
  sequence to \<open>c + 1\<close>; \<open>c + 1\<close> is the number \<open>M\<close> of reads completed so far; and the
  values these reads returned are the first \<open>M\<close> written values in claim order,
  sequences \<open>0\<close> to \<open>M - 1\<close>, each once.
\<close>

theorem reader_consumes_in_claim_order:
  assumes "valid_capacity CAPACITY"
    and "run CAPACITY (setup_queue CAPACITY dflt nr nw) tr = Some q"
    and "int (length (claim_order tr)) < 2 ^ 63"
    and "r < nr"
  shows "(\<forall>s s'. step CAPACITY (RWait r) s = Some s' \<longrightarrow>
            (rpc (readers s' ! r) = R_copy) =
            (slot_sequences s ! read_index (readers s ! r) = next_read_sequence (readers s ! r))
            \<and> (slot_sequences s ! read_index (readers s ! r)
                  \<noteq> next_read_sequence (readers s ! r) \<longrightarrow> s' = s))
    \<and> (\<forall>s dest. r < length (readers s) \<and> rpc (readers s ! r) = R_idle
            \<and> - 1 \<le> consumer_sequence (readers s ! r)
            \<and> consumer_sequence (readers s ! r) < 2 ^ 63 - 1
            \<and> length (slot_sequences s) = unat CAPACITY
            \<and> length (buffer s) = unat CAPACITY \<longrightarrow>
            (\<exists>v s'. read CAPACITY r dest s = Some (v, s')) =
            (slot_sequences s ! nat ((consumer_sequence (readers s ! r) + 1) mod uint CAPACITY)
               = consumer_sequence (readers s ! r) + 1)
            \<and> (\<forall>v s'. read CAPACITY r dest s = Some (v, s') \<longrightarrow>
                  consumer_sequence (readers s' ! r) = consumer_sequence (readers s ! r) + 1))
    \<and> (\<forall>q'. step CAPACITY (RWait r) q = Some q' \<longrightarrow>
            (rpc (readers q' ! r) = R_copy) =
            (slot_sequences q ! nat ((consumer_sequence (readers q ! r) + 1) mod uint CAPACITY)
               = consumer_sequence (readers q ! r) + 1))
    \<and> (\<forall>q'. step CAPACITY (RUpdate r) q = Some q' \<longrightarrow>
            consumer_sequence (readers q' ! r) = consumer_sequence (readers q ! r) + 1)
    \<and> consumer_sequence (readers q ! r) = int (completed_reads r tr) - 1
    \<and> completed_reads r tr \<le> length (claim_order tr)
    \<and> observed CAPACITY (setup_queue CAPACITY dflt nr nw) r tr
        = take (completed_reads r tr) (claim_order tr)"
proof -
  define N where "N = unat CAPACITY"
  have iN: "uint CAPACITY = int N" by (simp add: N_def)
  let ?R = "readers q ! r"
  note I = invariantD [OF reachable_invariant [OF assms(1-3)], folded N_def]
  have r: "r < length (readers q)"
    using run_lengths(1) [OF assms(2)] assms(4) by (simp add: setup_lengths)
  have T: "consumer_sequence ?R = int (completed_reads r tr) - 1"
    "observed CAPACITY (setup_queue CAPACITY dflt nr nw) r tr
        = take (completed_reads r tr) (claim_order tr)"
    using reachable_trace_inv [OF assms(1-3)] r by (simp_all add: trace_inv_def)
  have "consumer_sequence ?R < next_sequence q"
    using I(3) r by (auto simp: inv_reader_def)
  then have le: "completed_reads r tr \<le> length (claim_order tr)"
    using I(2) T(1) by (simp add: inv_next_def)
  have wait: "(rpc (readers q' ! r) = R_copy) =
      (slot_sequences q ! nat ((consumer_sequence ?R + 1) mod int N)
         = consumer_sequence ?R + 1)"
    if st: "step CAPACITY (RWait r) q = Some q'" for q'
  proof -
    from st have pc: "rpc ?R = R_wait"
      by (auto simp: wait_for_data_def split: if_splits)
    then have nx: "consumer_sequence ?R + 1 = next_read_sequence ?R"
      and ri: "nat (next_read_sequence ?R mod int N) = read_index ?R"
      using I(3) r by (auto simp: inv_reader_def)
    from st r pc show ?thesis
      unfolding nx ri
      by (auto simp: wait_for_data_def split: if_splits)
  qed
  have upd: "consumer_sequence (readers q' ! r) = consumer_sequence ?R + 1"
    if st: "step CAPACITY (RUpdate r) q = Some q'" for q'
  proof -
    from st have pc: "rpc ?R = R_update"
      by (auto simp: update_consumer_sequence_def split: if_splits)
    then have "next_read_sequence ?R = consumer_sequence ?R + 1"
      using I(3) r by (auto simp: inv_reader_def)
    with step_consumer_sequence [OF st r] show ?thesis by simp
  qed
  have any: "(rpc (readers s' ! r) = R_copy) =
        (slot_sequences s ! read_index (readers s ! r) = next_read_sequence (readers s ! r))
      \<and> (slot_sequences s ! read_index (readers s ! r)
            \<noteq> next_read_sequence (readers s ! r) \<longrightarrow> s' = s)"
    if "step CAPACITY (RWait r) s = Some s'" for s s'
    using wait_for_data_exact [of r s s'] that by simp
  have solo: "(\<exists>v s'. read CAPACITY r dest s = Some (v, s')) =
        (slot_sequences s ! nat ((consumer_sequence (readers s ! r) + 1) mod uint CAPACITY)
           = consumer_sequence (readers s ! r) + 1)
      \<and> (\<forall>v s'. read CAPACITY r dest s = Some (v, s') \<longrightarrow>
            consumer_sequence (readers s' ! r) = consumer_sequence (readers s ! r) + 1)"
    if "r < length (readers s)" "rpc (readers s ! r) = R_idle"
      "- 1 \<le> consumer_sequence (readers s ! r)"
      "consumer_sequence (readers s ! r) < 2 ^ 63 - 1"
      "length (slot_sequences s) = unat CAPACITY" "length (buffer s) = unat CAPACITY"
    for s dest
    using read_needs_exact_stamp [OF assms(1) that] by blast
  have reach: "(\<forall>q'. step CAPACITY (RWait r) q = Some q' \<longrightarrow>
            (rpc (readers q' ! r) = R_copy) =
            (slot_sequences q ! nat ((consumer_sequence (readers q ! r) + 1) mod uint CAPACITY)
               = consumer_sequence (readers q ! r) + 1))
    \<and> (\<forall>q'. step CAPACITY (RUpdate r) q = Some q' \<longrightarrow>
            consumer_sequence (readers q' ! r) = consumer_sequence (readers q ! r) + 1)
    \<and> consumer_sequence (readers q ! r) = int (completed_reads r tr) - 1
    \<and> completed_reads r tr \<le> length (claim_order tr)
    \<and> observed CAPACITY (setup_queue CAPACITY dflt nr nw) r tr
        = take (completed_reads r tr) (claim_order tr)"
    using wait upd T le unfolding iN by blast
  from any solo reach show ?thesis by blast
qed

theorem reader_consumes_in_claim_order_witness:
  "valid_capacity 2
   \<and> (\<exists>q. run 2 (setup_queue 2 (0::int) 1 1)
              [WriteCall 0 10, WWait 0, WStore 0, WCommit 0, ReadIntoCall 0 99, RWait 0,
               RCopy 0, RUpdate 0, WriteCall 0 11, WWait 0, WStore 0, WCommit 0, ReadCall 0,
               RWait 0, RCopy 0, RUpdate 0] = Some q
          \<and> consumer_sequence (readers q ! 0) = 1)
   \<and> observed 2 (setup_queue 2 (0::int) 1 1) 0
         [WriteCall 0 10, WWait 0, WStore 0, WCommit 0, ReadIntoCall 0 99, RWait 0,
          RCopy 0, RUpdate 0, WriteCall 0 11, WWait 0, WStore 0, WCommit 0, ReadCall 0,
          RWait 0, RCopy 0, RUpdate 0] = [10, 11]
   \<and> step 2 (RWait 0)
        \<lparr>buffer = [12, 11], slot_sequences = [2, 1], next_sequence = 3,
         readers = [\<lparr>consumer_sequence = - 1, rpc = R_wait, next_read_sequence = 0,
             read_index = 0, rvalue = (0::int)\<rparr>],
         writers = [new_writer 0]\<rparr>
      = Some \<lparr>buffer = [12, 11], slot_sequences = [2, 1], next_sequence = 3,
         readers = [\<lparr>consumer_sequence = - 1, rpc = R_wait, next_read_sequence = 0,
             read_index = 0, rvalue = (0::int)\<rparr>],
         writers = [new_writer 0]\<rparr>
   \<and> read 2 0 None
        \<lparr>buffer = [12, 11], slot_sequences = [2, 1], next_sequence = 3,
         readers = [\<lparr>consumer_sequence = - 1, rpc = R_idle, next_read_sequence = 0,
             read_index = 0, rvalue = (0::int)\<rparr>],
         writers = [new_writer 0]\<rparr> = None"
proof -
  let ?tr = "[WriteCall 0 (10::int), WWait 0, WStore 0, WCommit 0, ReadIntoCall 0 99, RWait 0,
          RCopy 0, RUpdate 0, WriteCall 0 11, WWait 0, WStore 0, WCommit 0, ReadCall 0,
          RWait 0, RCopy 0, RUpdate 0]"
  let ?w = "\<lparr>buffer = [12, 11], slot_sequences = [2, 1], next_sequence = 3,
         readers = [\<lparr>consumer_sequence = - 1, rpc = R_wait, next_read_sequence = 0,
             read_index = 0, rvalue = (0::int)\<rparr>],
         writers = [new_writer 0]\<rparr>"
  let ?i = "\<lparr>buffer = [12, 11], slot_sequences = [2, 1], next_sequence = 3,
         readers = [\<lparr>consumer_sequence = - 1, rpc = R_idle, next_read_sequence = 0,
             read_index = 0, rvalue = (0::int)\<rparr>],
         writers = [new_writer 0]\<rparr>"
  have b: "int (length (claim_order ?tr)) < 2 ^ 63" by (simp add: claim_order_def)
  have r: "(0::nat) < 1" by simp
  note C = reader_consumes_in_claim_order [OF valid_capacity_2 run_two_rounds b r]
  have st: "step 2 (RWait 0) ?w = Some ?w"
    by (simp add: wait_for_data_def)
  from C have "slot_sequences ?w ! read_index (readers ?w ! 0)
      \<noteq> next_read_sequence (readers ?w ! 0) \<longrightarrow> ?w = ?w"
    using st by blast
  have pre: "0 < length (readers ?i) \<and> rpc (readers ?i ! 0) = R_idle
      \<and> - 1 \<le> consumer_sequence (readers ?i ! 0)
      \<and> consumer_sequence (readers ?i ! 0) < 2 ^ 63 - 1
      \<and> length (slot_sequences ?i) = unat (2 :: 64 word)
      \<and> length (buffer ?i) = unat (2 :: 64 word)"
    by simp
  from C pre have "(\<exists>v s'. read 2 0 None ?i = Some (v, s')) =
      (slot_sequences ?i ! nat ((consumer_sequence (readers ?i ! 0) + 1) mod uint (2 :: 64 word))
         = consumer_sequence (readers ?i ! 0) + 1)"
    by blast
  then have "\<forall>v s'. read 2 0 None ?i \<noteq> Some (v, s')" by simp
  then have rd: "read 2 0 None ?i = None"
    by (cases "read 2 0 None ?i") auto
  from C have obs: "observed 2 (setup_queue 2 (0::int) 1 1) 0 ?tr
      = take (completed_reads 0 ?tr) (claim_order ?tr)"
    by blast
  have cs: "\<exists>q. run 2 (setup_queue 2 (0::int) 1 1) ?tr = Some q
      \<and> consumer_sequence (readers q ! 0) = 1"
    using run_two_rounds by simp
  from valid_capacity_2 cs obs st rd
  show ?thesis by (simp add: claim_order_def completed_reads_def)
qed

text \<open>
  C4. In every reachable state and for every slot \<open>i\<close>: the stamp is the sequence of
  the most recent completed publication to the slot, and \<open>- 1\<close> if there was none; a
  stamp other than \<open>- 1\<close> is congruent to \<open>i\<close> modulo the capacity; the stamp is \<open>- 1\<close>
  exactly when the slot was never published; and all stamps are \<open>- 1\<close> after
  construction.
\<close>

theorem stamp_is_last_publication:
  assumes "valid_capacity CAPACITY"
    and "run CAPACITY (setup_queue CAPACITY dflt nr nw) tr = Some q"
    and "int (length (claim_order tr)) < 2 ^ 63"
    and "i < unat CAPACITY"
  shows "slot_sequences q ! i
      = last_published (publications CAPACITY (setup_queue CAPACITY dflt nr nw) tr) i
    \<and> (slot_sequences q ! i = - 1 \<or> slot_sequences q ! i mod uint CAPACITY = int i)
    \<and> (slot_sequences q ! i = - 1) =
        (i \<notin> fst ` set (publications CAPACITY (setup_queue CAPACITY dflt nr nw) tr))
    \<and> slot_sequences (setup_queue CAPACITY dflt nr nw) ! i = - 1"
proof -
  define N where "N = unat CAPACITY"
  have iN: "uint CAPACITY = int N" by (simp add: N_def)
  have i: "i < N" using assms(4) by (simp add: N_def)
  let ?ps = "publications CAPACITY (setup_queue CAPACITY dflt nr nw) tr"
  note I = invariantD [OF reachable_invariant [OF assms(1-3)], folded N_def]
  have T: "slot_sequences q ! i = last_published ?ps i" "\<forall>p \<in> set ?ps. 0 \<le> snd p"
    using reachable_trace_inv [OF assms(1-3)] assms(4) by (simp_all add: trace_inv_def)
  have "slot_sequences q ! i = - 1 \<or> nat (slot_sequences q ! i mod int N) = i"
    using I(4) i by (auto simp: inv_slots_def)
  moreover have "0 \<le> slot_sequences q ! i mod int N"
    using i by simp
  ultimately have md: "slot_sequences q ! i = - 1 \<or> slot_sequences q ! i mod int N = int i"
    by linarith
  have "(slot_sequences q ! i = - 1) = (i \<notin> fst ` set ?ps)"
    unfolding T(1) using T(2) by (rule last_published_initial)
  moreover have "slot_sequences (setup_queue CAPACITY dflt nr nw) ! i = - 1"
    using assms(4) by (simp add: setup_queue_eq INITIAL_SEQUENCE_def)
  ultimately show ?thesis using T(1) md unfolding iN by blast
qed

theorem stamp_is_last_publication_witness:
  "valid_capacity 2 \<and> 0 < unat (2 :: 64 word)
   \<and> (\<exists>q. run 2 (setup_queue 2 (0::int) 1 1)
              [WriteCall 0 10, WWait 0, WStore 0, WCommit 0, WriteCall 0 11, WWait 0, WStore 0,
               WCommit 0, ReadCall 0, RWait 0, RCopy 0, RUpdate 0, WriteCall 0 12, WWait 0,
               WLoad 0, WWait 0, WStore 0, WCommit 0] = Some q
          \<and> slot_sequences q ! 0 = 2)
   \<and> last_published (publications 2 (setup_queue 2 (0::int) 1 1)
              [WriteCall 0 10, WWait 0, WStore 0, WCommit 0, WriteCall 0 11, WWait 0, WStore 0,
               WCommit 0, ReadCall 0, RWait 0, RCopy 0, RUpdate 0, WriteCall 0 12, WWait 0,
               WLoad 0, WWait 0, WStore 0, WCommit 0]) 0 = 2"
proof -
  let ?tr = "[WriteCall 0 (10::int), WWait 0, WStore 0, WCommit 0, WriteCall 0 11, WWait 0,
      WStore 0, WCommit 0, ReadCall 0, RWait 0, RCopy 0, RUpdate 0, WriteCall 0 12, WWait 0,
      WLoad 0, WWait 0, WStore 0, WCommit 0]"
  have b: "int (length (claim_order ?tr)) < 2 ^ 63" by (simp add: claim_order_def)
  have i: "0 < unat (2 :: 64 word)" by simp
  from stamp_is_last_publication [OF valid_capacity_2 run_second_lap b i]
    valid_capacity_2 run_second_lap
  show ?thesis by simp
qed

lemma reader_step_frame:
  assumes "step CAPACITY e q = Some q'" "reader_of e = Some r"
  shows "buffer q' = buffer q \<and> slot_sequences q' = slot_sequences q
    \<and> next_sequence q' = next_sequence q \<and> writers q' = writers q
    \<and> (\<forall>r'. r' \<noteq> r \<longrightarrow> readers q' ! r' = readers q ! r')"
  using assms
  by (cases e; auto simp: step_defs split: if_splits option.splits)

lemma reader_run_frame:
  assumes "run CAPACITY q tr = Some q'" "\<forall>e \<in> set tr. reader_of e = Some r"
  shows "buffer q' = buffer q \<and> slot_sequences q' = slot_sequences q
    \<and> next_sequence q' = next_sequence q \<and> writers q' = writers q
    \<and> (\<forall>r'. r' \<noteq> r \<longrightarrow> readers q' ! r' = readers q ! r')"
  using assms
proof (induction tr arbitrary: q)
  case Nil
  then show ?case by simp
next
  case (Cons e es)
  from Cons.prems(1) obtain q1 where st: "step CAPACITY e q = Some q1"
    and rn: "run CAPACITY q1 es = Some q'"
    by (auto split: option.splits)
  have "reader_of e = Some r" using Cons.prems(2) by simp
  from reader_step_frame [OF st this] Cons.IH [OF rn] Cons.prems(2)
  show ?case by simp
qed

lemma claim_order_reader_events:
  assumes "\<forall>e \<in> set tr. reader_of e = Some r"
  shows "claim_order tr = []"
proof -
  have "written e = []" if "reader_of e = Some r" for e :: "'a event"
    using that by (cases e) auto
  with assms show ?thesis by (simp add: claim_order_def)
qed

text \<open>
  The reads of revision 2 copy the payload. From every reachable state, any sequence of
  steps of reader \<open>r\<close> alone (one call of either overload of \<^verbatim>\<open>read\<close>, with any number of
  turns of its wait loop, or several calls) leaves the buffer, the stamps,
  \<^verbatim>\<open>_next_sequence\<close>, every writer and every other reader as they were, and raises the
  consumer sequence of \<open>r\<close> by the number of reads completed.
\<close>

lemma copying_read_frame:
  assumes "valid_capacity CAPACITY"
    and "run CAPACITY (setup_queue CAPACITY dflt nr nw) tr = Some q"
    and "int (length (claim_order tr)) < 2 ^ 63"
    and "r < nr"
    and "run CAPACITY q calls = Some q'" and "\<forall>e \<in> set calls. reader_of e = Some r"
  shows "buffer q' = buffer q \<and> slot_sequences q' = slot_sequences q
    \<and> next_sequence q' = next_sequence q \<and> writers q' = writers q
    \<and> (\<forall>r'. r' \<noteq> r \<longrightarrow> readers q' ! r' = readers q ! r')
    \<and> consumer_sequence (readers q' ! r)
        = consumer_sequence (readers q ! r) + int (completed_reads r calls)"
proof -
  have r: "r < length (readers q)"
    using run_lengths(1) [OF assms(2)] assms(4) by (simp add: setup_lengths)
  have r': "r < length (readers q')"
    using run_lengths(1) [OF assms(5)] r by simp
  have whole: "run CAPACITY (setup_queue CAPACITY dflt nr nw) (tr @ calls) = Some q'"
    using assms(2,5) by (simp add: run_append)
  have co: "claim_order (tr @ calls) = claim_order tr"
    using claim_order_reader_events [OF assms(6)] by (simp add: claim_order_def)
  have b: "int (length (claim_order (tr @ calls))) < 2 ^ 63"
    using assms(3) co by simp
  have "consumer_sequence (readers q ! r) = int (completed_reads r tr) - 1"
    using reachable_trace_inv [OF assms(1-3)] r by (simp add: trace_inv_def)
  moreover have "consumer_sequence (readers q' ! r) = int (completed_reads r (tr @ calls)) - 1"
    using reachable_trace_inv [OF assms(1) whole b] r' by (simp add: trace_inv_def)
  ultimately have "consumer_sequence (readers q' ! r)
      = consumer_sequence (readers q ! r) + int (completed_reads r calls)"
    by (simp add: completed_reads_def)
  with reader_run_frame [OF assms(5,6)] show ?thesis by simp
qed

text \<open>
  C9. Revision 1 with payloads of type \<^verbatim>\<open>std::vector<int>\<close> (a list; moving from a vector
  leaves it empty), capacity 2, two readers and one writer: the writer writes \<open>[7]\<close>,
  then reader 0 and reader 1 each complete one \<^verbatim>\<open>read()\<close>. The read of reader 0 empties
  slot 0 of the buffer, and reader 1 is handed the empty vector instead of \<open>[7]\<close>. On
  revision 2 the same schedule leaves the buffer as the writer left it and hands \<open>[7]\<close>
  to both readers.
\<close>

theorem moving_read_destroys_payload:
  "run_r1 (\<lambda>v. []) 2 (setup_queue 2 [] 2 1)
     [WriteCall 0 [7::int], WWait 0, WStore 0, WCommit 0,
      ReadCall 0, RWait 0, RCopy 0, RUpdate 0, ReadCall 1, RWait 1, RCopy 1, RUpdate 1]
   = Some \<lparr>buffer = [ [], [] ], slot_sequences = [0, - 1], next_sequence = 1,
       readers = [\<lparr>consumer_sequence = 0, rpc = R_idle, next_read_sequence = 0,
                    read_index = 0, rvalue = [7]\<rparr>,
                  \<lparr>consumer_sequence = 0, rpc = R_idle, next_read_sequence = 0,
                    read_index = 0, rvalue = []\<rparr>],
       writers = [\<lparr>cached_min_consumer_sequence = - 1, wpc = W_idle, wvalue = [7],
           claimed_sequence = 0, write_index = 0, min_sequence = 0\<rparr>]\<rparr>
   \<and> run 2 (setup_queue 2 [] 2 1)
     [WriteCall 0 [7::int], WWait 0, WStore 0, WCommit 0,
      ReadCall 0, RWait 0, RCopy 0, RUpdate 0, ReadCall 1, RWait 1, RCopy 1, RUpdate 1]
   = Some \<lparr>buffer = [ [7], [] ], slot_sequences = [0, - 1], next_sequence = 1,
       readers = [\<lparr>consumer_sequence = 0, rpc = R_idle, next_read_sequence = 0,
                    read_index = 0, rvalue = [7]\<rparr>,
                  \<lparr>consumer_sequence = 0, rpc = R_idle, next_read_sequence = 0,
                    read_index = 0, rvalue = [7]\<rparr>],
       writers = [\<lparr>cached_min_consumer_sequence = - 1, wpc = W_idle, wvalue = [7],
           claimed_sequence = 0, write_index = 0, min_sequence = 0\<rparr>]\<rparr>"
  by (simp add: setup_queue_two_readers_2 new_reader_def new_writer_def step_defs
      move_payload_def set_writer_def set_reader_def INITIAL_SEQUENCE_def SEQUENCE_MAX_def
      index_from_sequence_2 wrap64_def)

end
